theory Spec2Isabelle
  imports Main "HOL-Library.Word" "HOL-Library.Multiset" "HOL-Library.Sublist"
    "HOL-Library.Code_Target_Numeral"
begin

section \<open>Data model of main.cpp\<close>

text \<open>
  \<^verbatim>\<open>typedef unsigned char Byte\<close>; \<^verbatim>\<open>uint32_t\<close> is a 32-bit word whose
  arithmetic wraps. A \<^verbatim>\<open>std::string\<close> of bits is a \<open>string\<close>.
\<close>

type_synonym Byte = "8 word"
type_synonym uint32_t = "32 word"

definition PADDING_BIT :: char where "PADDING_BIT = CHR ''0''"
definition LEFT_CHAR :: char where "LEFT_CHAR = CHR ''0''"
definition RIGHT_CHAR :: char where "RIGHT_CHAR = CHR ''1''"
definition NULL_CHAR :: Byte where "NULL_CHAR = 0"
definition CHAR_BIT :: nat where "CHAR_BIT = 8"

text \<open>
  A value of this type is a \<^verbatim>\<open>HuffmanNode *\<close>: either \<open>nullptr\<close> or the address of a
  node with the four fields of the struct. Nodes are never shared or mutated after
  construction, so the pointee is stored in place.
\<close>

datatype HuffmanNode =
    nullptr
  | HuffmanNode (byte: Byte) (freq: uint32_t) (left: HuffmanNode) (right: HuffmanNode)

text \<open>The two constructors of the struct that the program calls.\<close>

definition new_leaf :: "Byte \<Rightarrow> uint32_t \<Rightarrow> HuffmanNode" where
  "new_leaf b f = HuffmanNode b f nullptr nullptr"

definition new_internal :: "HuffmanNode \<Rightarrow> HuffmanNode \<Rightarrow> HuffmanNode" where
  "new_internal l r = HuffmanNode NULL_CHAR (freq l + freq r) l r"

definition greater_frequency :: "HuffmanNode \<Rightarrow> HuffmanNode \<Rightarrow> bool" where
  "greater_frequency l r \<longleftrightarrow> freq l > freq r"

text \<open>
  What the program can do besides returning: undefined behaviour of C++ (reading the top of
  an empty queue, an uninitialised variable, a string beyond its end) and the exceptions
  the standard library throws (\<^verbatim>\<open>std::out_of_range\<close> from \<^verbatim>\<open>string::erase\<close>,
  \<^verbatim>\<open>std::invalid_argument\<close> from the \<^verbatim>\<open>std::bitset\<close> constructor). The program
  defines no error type of its own and catches nothing.
\<close>

datatype fault = Undefined_behaviour | Out_of_range | Invalid_argument

section \<open>std::map\<close>

text \<open>
  A \<^verbatim>\<open>std::map\<close> is kept as the list of its pairs in ascending key order, which is the
  order in which the program iterates over it. \<open>map_assign\<close> is \<^verbatim>\<open>m[k] = v\<close>.
\<close>

type_synonym ('k, 'v) std_map = "('k \<times> 'v) list"

fun map_assign :: "'k::linorder \<Rightarrow> 'v \<Rightarrow> ('k, 'v) std_map \<Rightarrow> ('k, 'v) std_map" where
  "map_assign k v [] = [(k, v)]"
| "map_assign k v ((k', v') # m) =
     (if k < k' then (k, v) # (k', v') # m
      else if k = k' then (k, v) # m
      else (k', v') # map_assign k v m)"

text \<open>
  \<^verbatim>\<open>m[k]\<close> read as a value: the mapped value, and the map, in which an absent key has
  been inserted with the value-initialised default.
\<close>

definition map_index :: "'v \<Rightarrow> ('k::linorder, 'v) std_map \<Rightarrow> 'k \<Rightarrow> 'v \<times> ('k, 'v) std_map" where
  "map_index dflt m k =
     (case map_of m k of Some v \<Rightarrow> (v, m) | None \<Rightarrow> (dflt, map_assign k dflt m))"

section \<open>std::priority_queue\<close>

text \<open>
  \<^verbatim>\<open>std::priority_queue<HuffmanNode *, std::vector<HuffmanNode *>, greater_frequency>\<close>
  is a vector kept as a binary heap by \<^verbatim>\<open>std::push_heap\<close> and \<^verbatim>\<open>std::pop_heap\<close>. The
  order in which nodes of equal frequency leave the queue is fixed by these two
  algorithms, so they are written out as the GNU C++ library (\<^verbatim>\<open>bits/stl_heap.h\<close>)
  has them: \<open>push_heap_aux\<close> is \<^verbatim>\<open>std::__push_heap\<close>, \<open>adjust_heap\<close> is
  \<^verbatim>\<open>std::__adjust_heap\<close>.
\<close>

function push_heap_aux :: "HuffmanNode list \<Rightarrow> nat \<Rightarrow> nat \<Rightarrow> HuffmanNode \<Rightarrow> HuffmanNode list" where
  "push_heap_aux first holeIndex topIndex val =
     (let parent = (holeIndex - 1) div 2 in
      if holeIndex > topIndex \<and> greater_frequency (first ! parent) val
      then push_heap_aux (first[holeIndex := first ! parent]) parent topIndex val
      else first[holeIndex := val])"
  by pat_completeness auto
termination
  by (relation "measure (\<lambda>(first, holeIndex, topIndex, val). holeIndex)") auto

declare push_heap_aux.simps [simp del]

function adjust_heap_loop :: "HuffmanNode list \<Rightarrow> nat \<Rightarrow> nat \<Rightarrow> nat \<Rightarrow> HuffmanNode list \<times> nat \<times> nat" where
  "adjust_heap_loop first holeIndex secondChild len =
     (if secondChild < (len - 1) div 2
      then let sc = 2 * (secondChild + 1);
               sc' = (if greater_frequency (first ! sc) (first ! (sc - 1)) then sc - 1 else sc)
           in adjust_heap_loop (first[holeIndex := first ! sc']) sc' sc' len
      else (first, holeIndex, secondChild))"
  by pat_completeness auto
termination
  by (relation "measure (\<lambda>(first, holeIndex, secondChild, len). len - secondChild)")
     (auto simp: Let_def)

declare adjust_heap_loop.simps [simp del]

definition adjust_heap :: "HuffmanNode list \<Rightarrow> nat \<Rightarrow> nat \<Rightarrow> HuffmanNode \<Rightarrow> HuffmanNode list" where
  "adjust_heap first holeIndex len val =
     (let topIndex = holeIndex;
          (first1, holeIndex1, secondChild) = adjust_heap_loop first holeIndex holeIndex len;
          (first2, holeIndex2) =
             (if len mod 2 = 0 \<and> secondChild = (len - 2) div 2
              then let sc = 2 * (secondChild + 1)
                   in (first1[holeIndex1 := first1 ! (sc - 1)], sc - 1)
              else (first1, holeIndex1))
      in push_heap_aux first2 holeIndex2 topIndex val)"

text \<open>\<^verbatim>\<open>push\<close>: \<^verbatim>\<open>c.push_back(x); std::push_heap(c.begin(), c.end(), comp)\<close>.\<close>

definition pq_push :: "HuffmanNode \<Rightarrow> HuffmanNode list \<Rightarrow> HuffmanNode list" where
  "pq_push x c = push_heap_aux (c @ [x]) (length c) 0 x"

text \<open>
  \<^verbatim>\<open>pop\<close>: \<^verbatim>\<open>std::pop_heap(c.begin(), c.end(), comp); c.pop_back()\<close>. With more than
  one element, \<^verbatim>\<open>std::__pop_heap\<close> saves the last element, stores the first in the last
  place and sifts the saved value down from the root over the first \<open>length c - 1\<close>
  places. The program pops only inside the loop guarded by \<^verbatim>\<open>size() > 1\<close>.
\<close>

definition pq_pop :: "HuffmanNode list \<Rightarrow> HuffmanNode list" where
  "pq_pop c =
     (if length c > 1
      then butlast (adjust_heap (c[length c - 1 := c ! 0]) 0 (length c - 1) (c ! (length c - 1)))
      else butlast c)"

text \<open>\<^verbatim>\<open>top\<close> is \<^verbatim>\<open>c.front()\<close>, undefined on an empty vector.\<close>

definition pq_top :: "HuffmanNode list \<Rightarrow> fault + HuffmanNode" where
  "pq_top c = (case c of [] \<Rightarrow> Inl Undefined_behaviour | x # _ \<Rightarrow> Inr x)"

section \<open>The Huffman algorithm\<close>

text \<open>\<^verbatim>\<open>frequencies[byte]++\<close> for every byte of the data.\<close>

definition count_step :: "Byte \<Rightarrow> (Byte, uint32_t) std_map \<Rightarrow> (Byte, uint32_t) std_map" where
  "count_step b frequencies =
     (let (v, m) = map_index 0 frequencies b in map_assign b (v + 1) m)"

definition count_frequencies :: "Byte list \<Rightarrow> (Byte, uint32_t) std_map" where
  "count_frequencies data = fold count_step data []"

text \<open>
  The first loop of \<^verbatim>\<open>build_huffman_tree\<close> pushes one leaf per pair, in the map's
  order; the second merges the two nodes at the top until one is left.
\<close>

definition push_leaves :: "(Byte, uint32_t) std_map \<Rightarrow> HuffmanNode list" where
  "push_leaves frequencies = fold (\<lambda>(b, f) nodeHeap. pq_push (new_leaf b f) nodeHeap) frequencies []"

definition merge_step :: "HuffmanNode list \<Rightarrow> HuffmanNode list" where
  "merge_step nodeHeap =
     (let l = hd nodeHeap;
          h1 = pq_pop nodeHeap;
          r = hd h1;
          h2 = pq_pop h1
      in pq_push (new_internal l r) h2)"

lemma length_push_heap_aux [simp]: "length (push_heap_aux xs h t v) = length xs"
  by (induction xs h t v rule: push_heap_aux.induct)
     (subst push_heap_aux.simps, simp add: Let_def)

lemma length_adjust_heap_loop [simp]:
  "length (fst (adjust_heap_loop xs h s n)) = length xs"
  by (induction xs h s n rule: adjust_heap_loop.induct)
     (subst adjust_heap_loop.simps, simp add: Let_def)

lemma length_adjust_heap [simp]: "length (adjust_heap xs h n v) = length xs"
proof -
  obtain a b c where l: "adjust_heap_loop xs h h n = (a, b, c)"
    by (cases "adjust_heap_loop xs h h n") auto
  have "length a = length xs"
    using length_adjust_heap_loop [of xs h h n] l by simp
  then show ?thesis
    by (simp add: adjust_heap_def l Let_def)
qed

lemma length_pq_push [simp]: "length (pq_push x c) = Suc (length c)"
  by (simp add: pq_push_def)

lemma length_pq_pop [simp]: "length (pq_pop c) = length c - 1"
  by (simp add: pq_pop_def)

lemma length_merge_step: "1 < length nodeHeap \<Longrightarrow> length (merge_step nodeHeap) = length nodeHeap - 1"
  by (simp add: merge_step_def Let_def)

function merge_loop :: "HuffmanNode list \<Rightarrow> HuffmanNode list" where
  "merge_loop nodeHeap =
     (if length nodeHeap > 1 then merge_loop (merge_step nodeHeap) else nodeHeap)"
  by pat_completeness auto
termination
  by (relation "measure length") (auto simp: length_merge_step)

declare merge_loop.simps [simp del]

definition build_huffman_tree :: "(Byte, uint32_t) std_map \<Rightarrow> fault + HuffmanNode" where
  "build_huffman_tree frequencies = pq_top (merge_loop (push_leaves frequencies))"

text \<open>
  \<^verbatim>\<open>create_substitution_table\<close>: the table is passed by reference and returned here.
\<close>

fun create_substitution_table ::
  "HuffmanNode \<Rightarrow> (Byte, string) std_map \<Rightarrow> string \<Rightarrow> (Byte, string) std_map" where
  "create_substitution_table nullptr substitution_table substitute_str = substitution_table"
| "create_substitution_table (HuffmanNode b f l r) substitution_table substitute_str =
     (let t0 = (if l = nullptr \<and> r = nullptr
                then map_assign b substitute_str substitution_table
                else substitution_table);
          t1 = create_substitution_table l t0 (substitute_str @ [LEFT_CHAR])
      in create_substitution_table r t1 (substitute_str @ [RIGHT_CHAR]))"

text \<open>
  \<^verbatim>\<open>decode\<close>: \<open>index\<close> and \<open>decoded\<close> are passed by reference and returned here.
  \<^verbatim>\<open>str[index]\<close> on a \<^verbatim>\<open>const std::string\<close> is the character below the length, the
  null character at the length, and undefined beyond it.
\<close>

definition string_at :: "string \<Rightarrow> int \<Rightarrow> fault + char" where
  "string_at str i =
     (if 0 \<le> i \<and> i < int (length str) then Inr (str ! nat i)
      else if i = int (length str) then Inr (CHR 0x00)
      else Inl Undefined_behaviour)"

fun decode :: "HuffmanNode \<Rightarrow> int \<Rightarrow> string \<Rightarrow> Byte list \<Rightarrow> fault + (int \<times> Byte list)" where
  "decode nullptr index str decoded = Inr (index, decoded)"
| "decode (HuffmanNode b f l r) index str decoded =
     (if l = nullptr \<and> r = nullptr then Inr (index, decoded @ [b])
      else let index' = index + 1 in
        (case string_at str index' of
           Inl e \<Rightarrow> Inl e
         | Inr c \<Rightarrow> if c = LEFT_CHAR then decode l index' str decoded
                    else decode r index' str decoded))"

section \<open>Platform\<close>

text \<open>
  The container is written with \<^verbatim>\<open>ostream::write\<close> of the object representation of
  each variable, so two properties of the compiling platform show in the file: the width
  of \<^verbatim>\<open>size_t\<close> (the type \<^verbatim>\<open>auto\<close> gives \<^verbatim>\<open>data_size\<close> and
  \<^verbatim>\<open>frequencies_size\<close> in \<^verbatim>\<open>write_compressed_file\<close>) and the byte order.
\<close>

datatype byte_order = Little_endian | Big_endian

record platform =
  sizeof_size_t :: nat
  endianness :: byte_order

definition ilp32 :: platform where
  "ilp32 = \<lparr>sizeof_size_t = 4, endianness = Little_endian\<rparr>"

definition lp64 :: platform where
  "lp64 = \<lparr>sizeof_size_t = 8, endianness = Little_endian\<rparr>"

text \<open>The \<open>n\<close> bytes that hold the unsigned value \<open>v\<close>, and the value held by bytes.\<close>

fun low_bytes :: "nat \<Rightarrow> nat \<Rightarrow> Byte list" where
  "low_bytes 0 v = []"
| "low_bytes (Suc n) v = of_nat (v mod 256) # low_bytes n (v div 256)"

definition object_bytes :: "platform \<Rightarrow> nat \<Rightarrow> nat \<Rightarrow> Byte list" where
  "object_bytes p n v =
     (case endianness p of Little_endian \<Rightarrow> low_bytes n v | Big_endian \<Rightarrow> rev (low_bytes n v))"

definition object_value :: "platform \<Rightarrow> Byte list \<Rightarrow> nat" where
  "object_value p bs =
     foldr (\<lambda>b v. unat b + 256 * v)
       (case endianness p of Little_endian \<Rightarrow> bs | Big_endian \<Rightarrow> rev bs) 0"

section \<open>File IO\<close>

text \<open>
  \<^verbatim>\<open>std::bitset<CHAR_BIT>(compressed_data, i, CHAR_BIT).to_ulong()\<close> on the characters
  from position \<open>i\<close>, at most eight of them: the first character is the most significant
  bit, and a character other than 0 and 1 throws.
\<close>

definition bitset_to_ulong :: "string \<Rightarrow> fault + nat" where
  "bitset_to_ulong cs =
     (if \<forall>c \<in> set cs. c = CHR ''0'' \<or> c = CHR ''1''
      then Inr (foldl (\<lambda>a c. 2 * a + (if c = CHR ''1'' then 1 else 0)) 0 cs)
      else Inl Invalid_argument)"

function write_packed :: "string \<Rightarrow> fault + Byte list" where
  "write_packed compressed_data =
     (if compressed_data = [] then Inr []
      else case bitset_to_ulong (take CHAR_BIT compressed_data) of
             Inl e \<Rightarrow> Inl e
           | Inr v \<Rightarrow> (case write_packed (drop CHAR_BIT compressed_data) of
                         Inl e \<Rightarrow> Inl e
                       | Inr bs \<Rightarrow> Inr (of_nat v # bs)))"
  by pat_completeness auto
termination
  by (relation "measure length") (auto simp: CHAR_BIT_def)

declare write_packed.simps [simp del]

text \<open>
  \<^verbatim>\<open>write_compressed_file\<close> returns the bytes written to the file and the string
  \<^verbatim>\<open>compressed_data\<close>, which it pads in place. The length of a string and the size of
  a map are \<^verbatim>\<open>size_t\<close> values and are kept as natural numbers.
\<close>

definition write_compressed_file ::
  "platform \<Rightarrow> uint32_t \<Rightarrow> string \<Rightarrow> uint32_t \<Rightarrow> (Byte, uint32_t) std_map
     \<Rightarrow> fault + (Byte list \<times> string)" where
  "write_compressed_file p original_file_size compressed_data padding frequencies =
     (let compressed_data' = compressed_data @ replicate (unat padding) PADDING_BIT;
          data_size = length compressed_data' div CHAR_BIT;
          frequencies_size = length frequencies;
          header = object_bytes p 4 (unat original_file_size)
                 @ object_bytes p (sizeof_size_t p) data_size
                 @ object_bytes p 4 (unat padding)
                 @ object_bytes p (sizeof_size_t p) frequencies_size;
          table = concat (map (\<lambda>(b, f). b # object_bytes p 4 (unat f)) frequencies)
      in case write_packed compressed_data' of
           Inl e \<Rightarrow> Inl e
         | Inr packed \<Rightarrow> Inr (header @ table @ packed, compressed_data'))"

text \<open>
  An input stream over the bytes of a file: \<open>None\<close> once a read has failed, after which
  every read fails. \<^verbatim>\<open>istream::read\<close> into a variable gives the value, or leaves the
  variable uninitialised (\<open>None\<close>) when the bytes are not all there.
\<close>

type_synonym istream = "Byte list option"

definition read_object :: "platform \<Rightarrow> nat \<Rightarrow> istream \<Rightarrow> nat option \<times> istream" where
  "read_object p n s =
     (case s of
        None \<Rightarrow> (None, None)
      | Some bs \<Rightarrow> if n \<le> length bs then (Some (object_value p (take n bs)), Some (drop n bs))
                   else (None, None))"

text \<open>
  The loop that reads the frequency table: the variables \<^verbatim>\<open>ch\<close> and
  \<^verbatim>\<open>frequency\<close> are declared without a value in each round, and
  \<^verbatim>\<open>frequencies[ch] = frequency\<close> reads them whether or not the reads succeeded.
\<close>

fun read_frequencies ::
  "platform \<Rightarrow> nat \<Rightarrow> istream \<Rightarrow> (Byte, uint32_t) std_map
     \<Rightarrow> fault + ((Byte, uint32_t) std_map \<times> istream)" where
  "read_frequencies p 0 s frequencies = Inr (frequencies, s)"
| "read_frequencies p (Suc n) s frequencies =
     (case read_object p 1 s of
        (None, s1) \<Rightarrow> Inl Undefined_behaviour
      | (Some ch, s1) \<Rightarrow>
          (case read_object p 4 s1 of
             (None, s2) \<Rightarrow> Inl Undefined_behaviour
           | (Some frequency, s2) \<Rightarrow>
               read_frequencies p n s2 (map_assign (of_nat ch) (of_nat frequency) frequencies)))"

text \<open>
  The last read fills a vector of \<open>data_size\<close> zero bytes with as many bytes as the stream
  still has. The size is taken to fit \<^verbatim>\<open>int\<close>, to which the program casts it.
\<close>

definition read_data :: "nat \<Rightarrow> istream \<Rightarrow> Byte list" where
  "read_data data_size s =
     (case s of
        None \<Rightarrow> replicate data_size 0
      | Some bs \<Rightarrow> take data_size bs @ replicate (data_size - length bs) 0)"

text \<open>
  \<^verbatim>\<open>read_compressed_file\<close> returns the padding, \<open>data\<close> and \<open>frequencies\<close>. No read is
  checked; the first header field whose value is used without having been read is
  \<^verbatim>\<open>frequencies_size\<close>, in the guard of the loop. \<^verbatim>\<open>original_file_size\<close> is read
  and never used.
\<close>

definition read_compressed_file ::
  "platform \<Rightarrow> Byte list \<Rightarrow> fault + (uint32_t \<times> Byte list \<times> (Byte, uint32_t) std_map)" where
  "read_compressed_file p file =
     (let (original_file_size, s1) = read_object p 4 (Some file);
          (data_size, s2) = read_object p 4 s1;
          (padding, s3) = read_object p 4 s2;
          (frequencies_size, s4) = read_object p 4 s3
      in case frequencies_size of
           None \<Rightarrow> Inl Undefined_behaviour
         | Some n \<Rightarrow>
             (case read_frequencies p n s4 [] of
                Inl e \<Rightarrow> Inl e
              | Inr (frequencies, s5) \<Rightarrow>
                  (case (data_size, padding) of
                     (Some d, Some pad) \<Rightarrow> Inr (of_nat pad, read_data d s5, frequencies)
                   | _ \<Rightarrow> Inl Undefined_behaviour)))"

definition byte_to_bit_string :: "Byte \<Rightarrow> string" where
  "byte_to_bit_string b =
     map (\<lambda>i. if bit b (CHAR_BIT - 1 - i) then CHR ''1'' else CHR ''0'') [0..<CHAR_BIT]"

definition bytes_to_bit_string :: "Byte list \<Rightarrow> string" where
  "bytes_to_bit_string bytes = concat (map byte_to_bit_string bytes)"

section \<open>Compression\<close>

text \<open>
  The loop that sums \<^verbatim>\<open>frequencies[pair.first] * pair.second.length()\<close> over the
  table, in 32 bits.
\<close>

definition encoded_size_step ::
  "Byte \<times> string \<Rightarrow> uint32_t \<times> (Byte, uint32_t) std_map \<Rightarrow> uint32_t \<times> (Byte, uint32_t) std_map" where
  "encoded_size_step pair st =
     (let (f, frequencies') = map_index 0 (snd st) (fst pair)
      in (fst st + f * of_nat (length (snd pair)), frequencies'))"

text \<open>The loop \<^verbatim>\<open>encoded += substitution_table[ch]\<close>.\<close>

definition encode_step ::
  "Byte \<Rightarrow> string \<times> (Byte, string) std_map \<Rightarrow> string \<times> (Byte, string) std_map" where
  "encode_step ch st =
     (let (code, table') = map_index [] (snd st) ch in (fst st @ code, table'))"

text \<open>
  \<^verbatim>\<open>compress\<close> up to its call of \<^verbatim>\<open>write_compressed_file\<close>: the four arguments
  \<^verbatim>\<open>original_file_size\<close>, \<^verbatim>\<open>encoded\<close>, \<^verbatim>\<open>padding\<close> and \<^verbatim>\<open>frequencies\<close>.
\<close>

definition compress_arguments ::
  "Byte list \<Rightarrow> fault + (uint32_t \<times> string \<times> uint32_t \<times> (Byte, uint32_t) std_map)" where
  "compress_arguments data =
     (let original_file_size = of_nat (length data);
          frequencies = count_frequencies data
      in case build_huffman_tree frequencies of
           Inl e \<Rightarrow> Inl e
         | Inr root \<Rightarrow>
             (let substitution_table = create_substitution_table root [] [];
                  (encodedSize, frequencies') =
                     fold encoded_size_step substitution_table (0, frequencies);
                  padding = of_nat CHAR_BIT - (encodedSize mod of_nat CHAR_BIT);
                  (encoded, table') = fold encode_step data ([], substitution_table)
              in Inr (original_file_size, encoded, padding, frequencies')))"

text \<open>
  \<^verbatim>\<open>compress\<close> returns the bytes of the file it wrote and its return value, the
  length of the padded string over \<^verbatim>\<open>CHAR_BIT\<close>, in 32 bits.
\<close>

definition compress :: "platform \<Rightarrow> Byte list \<Rightarrow> fault + (Byte list \<times> uint32_t)" where
  "compress p data =
     (case compress_arguments data of
        Inl e \<Rightarrow> Inl e
      | Inr (original_file_size, encoded, padding, frequencies) \<Rightarrow>
          (case write_compressed_file p original_file_size encoded padding frequencies of
             Inl e \<Rightarrow> Inl e
           | Inr (file, encoded') \<Rightarrow> Inr (file, of_nat (length encoded' div CHAR_BIT))))"

section \<open>Decompression\<close>

text \<open>
  The loop of \<^verbatim>\<open>decompress\<close>. It does not end when the root is a leaf and the guard
  holds, since \<^verbatim>\<open>decode\<close> then leaves \<open>index\<close> as it is: the result \<open>None\<close> is a run
  that never returns. The length of the string is taken to fit \<^verbatim>\<open>int\<close>.
\<close>

partial_function (option) decompress_loop ::
  "HuffmanNode \<Rightarrow> int \<Rightarrow> string \<Rightarrow> Byte list \<Rightarrow> (fault + Byte list) option" where
  "decompress_loop root index bits decoded =
     (if index < int (length bits) - 2
      then (case decode root index bits decoded of
              Inl e \<Rightarrow> Some (Inl e)
            | Inr (index', decoded') \<Rightarrow> decompress_loop root index' bits decoded')
      else Some (Inr decoded))"

declare decompress_loop.simps [code]

text \<open>
  \<^verbatim>\<open>bits.erase(bits.length() - padding)\<close>: the position is computed in \<^verbatim>\<open>size_t\<close>,
  so it wraps to a value above the length when \<open>padding\<close> exceeds the length, and
  \<^verbatim>\<open>erase\<close> throws.
\<close>

definition erase_from :: "string \<Rightarrow> uint32_t \<Rightarrow> fault + string" where
  "erase_from bits padding =
     (if unat padding \<le> length bits then Inr (take (length bits - unat padding) bits)
      else Inl Out_of_range)"

text \<open>
  \<^verbatim>\<open>decompress\<close> returns the decoded bytes and the string \<open>bits\<close>, which it changes
  in place.
\<close>

definition decompress ::
  "string \<Rightarrow> uint32_t \<Rightarrow> (Byte, uint32_t) std_map \<Rightarrow> (fault + (Byte list \<times> string)) option" where
  "decompress bits padding frequencies =
     (case build_huffman_tree frequencies of
        Inl e \<Rightarrow> Some (Inl e)
      | Inr root \<Rightarrow>
          (case erase_from bits padding of
             Inl e \<Rightarrow> Some (Inl e)
           | Inr bits' \<Rightarrow>
               (case decompress_loop root (- 1) bits' [] of
                  None \<Rightarrow> None
                | Some (Inl e) \<Rightarrow> Some (Inl e)
                | Some (Inr decoded) \<Rightarrow> Some (Inr (decoded, bits')))))"

text \<open>
  \<^verbatim>\<open>decompress_to_file\<close> returns the bytes it hands to \<^verbatim>\<open>write_uncompressed_file\<close>.
\<close>

definition decompress_to_file :: "platform \<Rightarrow> Byte list \<Rightarrow> (fault + Byte list) option" where
  "decompress_to_file p file =
     (case read_compressed_file p file of
        Inl e \<Rightarrow> Some (Inl e)
      | Inr (padding, data, frequencies) \<Rightarrow>
          (case decompress (bytes_to_bit_string data) padding frequencies of
             None \<Rightarrow> None
           | Some (Inl e) \<Rightarrow> Some (Inl e)
           | Some (Inr (decompressed, bits')) \<Rightarrow> Some (Inr decompressed)))"

section \<open>Notions used to state the properties\<close>

text \<open>
  The node reached from \<open>t\<close> along a bit-string: the left child on \<open>LEFT_CHAR\<close>, the right
  child on \<open>RIGHT_CHAR\<close>. A leaf is a node without children, as the tests
  \<^verbatim>\<open>!root->left && !root->right\<close> have it. \<open>leaves\<close> is the multiset of the bytes at the
  leaves.
\<close>

fun branch :: "HuffmanNode \<Rightarrow> string \<Rightarrow> HuffmanNode" where
  "branch t [] = t"
| "branch nullptr (c # cs) = nullptr"
| "branch (HuffmanNode b f l r) (c # cs) =
     (if c = LEFT_CHAR then branch l cs else if c = RIGHT_CHAR then branch r cs else nullptr)"

definition is_leaf :: "HuffmanNode \<Rightarrow> bool" where
  "is_leaf t \<longleftrightarrow> t \<noteq> nullptr \<and> left t = nullptr \<and> right t = nullptr"

fun leaves :: "HuffmanNode \<Rightarrow> Byte multiset" where
  "leaves nullptr = {#}"
| "leaves (HuffmanNode b f l r) =
     (if l = nullptr \<and> r = nullptr then {#b#} else leaves l + leaves r)"

text \<open>The bytes at the leaves of all the trees in the queue.\<close>

definition heap_leaves :: "HuffmanNode list \<Rightarrow> Byte multiset" where
  "heap_leaves c = \<Sum>\<^sub># (image_mset leaves (mset c))"

text \<open>The code of a byte: what \<^verbatim>\<open>substitution_table[ch]\<close> yields.\<close>

definition code_of :: "(Byte, string) std_map \<Rightarrow> Byte \<Rightarrow> string" where
  "code_of substitution_table ch = fst (map_index [] substitution_table ch)"

text \<open>
  The heap property that \<^verbatim>\<open>std::push_heap\<close> and \<^verbatim>\<open>std::pop_heap\<close> keep for the
  comparison \<open>greater_frequency\<close>: on the first \<open>n\<close> places no parent compares greater
  than its child. \<open>hole_ok\<close> is the same property around a hole at place \<open>h\<close>, whose
  content does not count, and \<open>children_ge\<close> says that a value may be stored in the hole
  above its children.
\<close>

definition heap_upto :: "nat \<Rightarrow> HuffmanNode list \<Rightarrow> bool" where
  "heap_upto n xs \<longleftrightarrow> (\<forall>i \<in> set [1..<n]. \<not> greater_frequency (xs ! ((i - 1) div 2)) (xs ! i))"

definition is_heap :: "HuffmanNode list \<Rightarrow> bool" where
  "is_heap xs \<longleftrightarrow> heap_upto (length xs) xs"

definition children_ge :: "nat \<Rightarrow> HuffmanNode list \<Rightarrow> nat \<Rightarrow> HuffmanNode \<Rightarrow> bool" where
  "children_ge n xs h v \<longleftrightarrow>
     (\<forall>k. 0 < k \<and> k < n \<and> (k - 1) div 2 = h \<longrightarrow> freq v \<le> freq (xs ! k))"

definition hole_ok :: "nat \<Rightarrow> HuffmanNode list \<Rightarrow> nat \<Rightarrow> bool" where
  "hole_ok n xs h \<longleftrightarrow>
     (\<forall>i. 0 < i \<and> i < n \<and> i \<noteq> h \<and> (i - 1) div 2 \<noteq> h
          \<longrightarrow> freq (xs ! ((i - 1) div 2)) \<le> freq (xs ! i))
   \<and> (0 < h \<longrightarrow> (\<forall>k. 0 < k \<and> k < n \<and> (k - 1) div 2 = h
          \<longrightarrow> freq (xs ! ((h - 1) div 2)) \<le> freq (xs ! k)))"

text \<open>
  The order that the specification describes (section 4.2): a stable priority order over
  (frequency, insertion order). The queue is the list of its nodes in the order of their
  insertion; the top is the first node of least frequency.
\<close>

fun spec_stable_top :: "HuffmanNode list \<Rightarrow> HuffmanNode" where
  "spec_stable_top [] = nullptr"
| "spec_stable_top [x] = x"
| "spec_stable_top (x # y # ys) =
     (let m = spec_stable_top (y # ys) in if freq m < freq x then m else x)"

definition spec_stable_pop :: "HuffmanNode list \<Rightarrow> HuffmanNode list" where
  "spec_stable_pop q = remove1 (spec_stable_top q) q"

section \<open>Properties of the map operations\<close>

lemma map_of_map_assign: "map_of (map_assign k v m) = (map_of m)(k \<mapsto> v)"
  by (induction m) (auto simp: fun_eq_iff)

lemma map_of_in_keys: "map_of m k = Some v \<Longrightarrow> k \<in> fst ` set m"
  by (metis fst_conv image_eqI map_of_SomeD)

lemma keys_map_assign: "fst ` set (map_assign k v m) = insert k (fst ` set m)"
proof (induction m)
  case Nil
  show ?case by simp
next
  case (Cons p m)
  obtain k' v' where p: "p = (k', v')" by (cases p)
  show ?case
    using Cons by (simp add: p insert_commute)
qed

lemma sorted_map_assign:
  "sorted_wrt (<) (map fst m) \<Longrightarrow> sorted_wrt (<) (map fst (map_assign k v m))"
proof (induction m)
  case Nil
  then show ?case by simp
next
  case (Cons p m)
  obtain k' v' where p: "p = (k', v')" by (cases p)
  have "\<forall>x \<in> fst ` set (map_assign k v m). k' < x" if "k' < k"
    using that Cons.prems by (auto simp: keys_map_assign p)
  then show ?case
    using Cons by (auto simp: p)
qed

lemma map_assign_present:
  "sorted_wrt (<) (map fst m) \<Longrightarrow> map_of m k = Some v \<Longrightarrow> map_assign k v m = m"
proof (induction m)
  case Nil
  then show ?case by simp
next
  case (Cons p m)
  obtain k' v' where p: "p = (k', v')" by (cases p)
  show ?case
  proof (cases "k = k'")
    case True
    then show ?thesis using Cons.prems by (simp add: p)
  next
    case False
    then have m: "map_of m k = Some v" using Cons.prems by (simp add: p)
    then have "k \<in> fst ` set m" by (rule map_of_in_keys)
    then have "k' < k" using Cons.prems by (auto simp: p)
    then show ?thesis using Cons m False by (simp add: p)
  qed
qed

lemma map_index_present:
  "map_of m k = Some v \<Longrightarrow> map_index d m k = (v, m)"
  by (simp add: map_index_def)

lemma count_step_eq:
  "count_step b m = map_assign b ((case map_of m b of None \<Rightarrow> 0 | Some v \<Rightarrow> v) + 1) (case map_of m b of None \<Rightarrow> map_assign b 0 m | Some v \<Rightarrow> m)"
  by (simp add: count_step_def map_index_def split: option.splits)

lemma count_step_sorted:
  "sorted_wrt (<) (map fst m) \<Longrightarrow> sorted_wrt (<) (map fst (count_step b m))"
  by (simp add: count_step_eq sorted_map_assign split: option.splits)

lemma count_step_keys: "fst ` set (count_step b m) = insert b (fst ` set m)"
  by (simp add: count_step_eq keys_map_assign split: option.splits)

lemma count_step_map_of:
  "map_of (count_step b m) = (map_of m)(b \<mapsto> (case map_of m b of None \<Rightarrow> 0 | Some v \<Rightarrow> v) + 1)"
  by (simp add: count_step_eq map_of_map_assign split: option.splits)

lemma fold_count_step_sorted:
  "sorted_wrt (<) (map fst m) \<Longrightarrow> sorted_wrt (<) (map fst (fold count_step data m))"
  by (induction data arbitrary: m) (simp_all add: count_step_sorted)

lemma fold_count_step_keys:
  "fst ` set (fold count_step data m) = set data \<union> fst ` set m"
  by (induction data arbitrary: m) (simp_all add: count_step_keys)

lemma fold_count_step_map_of:
  "map_of (fold count_step data m) b =
     (if b \<in> set data \<or> b \<in> fst ` set m
      then Some ((case map_of m b of None \<Rightarrow> 0 | Some v \<Rightarrow> v) + of_nat (count_list data b))
      else None)"
proof (induction data arbitrary: m)
  case Nil
  show ?case
  proof (cases "map_of m b")
    case None
    then show ?thesis by (simp add: map_of_eq_None_iff)
  next
    case (Some v)
    then have "b \<in> fst ` set m" by (rule map_of_in_keys)
    then show ?thesis using Some by simp
  qed
next
  case (Cons a data)
  show ?case
    by (simp add: Cons.IH count_step_map_of count_step_keys)
qed

lemma count_frequencies_sorted: "sorted_wrt (<) (map fst (count_frequencies data))"
  by (simp add: count_frequencies_def fold_count_step_sorted)

lemma count_frequencies_keys: "fst ` set (count_frequencies data) = set data"
  using fold_count_step_keys [of data "[]"] by (simp add: count_frequencies_def)

lemma count_frequencies_map_of:
  "map_of (count_frequencies data) b =
     (if b \<in> set data then Some (of_nat (count_list data b)) else None)"
  using fold_count_step_map_of [of data "[]" b] by (simp add: count_frequencies_def)

section \<open>The priority queue keeps its elements\<close>

lemma mset_update_swap:
  assumes "i < length xs" "j < length xs" "i \<noteq> j"
  shows "mset (xs[i := xs ! j, j := v]) = mset (xs[i := v])"
  using assms by (simp add: mset_update)

lemma mset_push_heap_aux:
  "h < length xs \<Longrightarrow> mset (push_heap_aux xs h t v) = mset (xs[h := v])"
proof (induction xs h t v rule: push_heap_aux.induct)
  case (1 first holeIndex topIndex val)
  define parent where "parent = (holeIndex - 1) div 2"
  show ?case
  proof (cases "holeIndex > topIndex \<and> greater_frequency (first ! parent) val")
    case True
    then have lt: "parent < holeIndex" by (auto simp: parent_def)
    have "mset (push_heap_aux (first[holeIndex := first ! parent]) parent topIndex val)
          = mset (first[holeIndex := first ! parent, parent := val])"
      using "1.IH" [of parent] True lt "1.prems" by (simp add: parent_def)
    also have "\<dots> = mset (first[holeIndex := val])"
      using lt "1.prems" by (simp add: mset_update_swap)
    finally show ?thesis
      using True by (subst push_heap_aux.simps) (simp add: parent_def Let_def)
  next
    case False
    then show ?thesis
      by (subst push_heap_aux.simps) (auto simp add: parent_def Let_def)
  qed
qed

lemma adjust_heap_loop_props:
  assumes "adjust_heap_loop xs h s len = (xs', h', s')" "s = h" "len \<le> length xs" "h < len"
  shows "s' = h' \<and> h' < len \<and> length xs' = length xs \<and> mset (xs'[h' := v]) = mset (xs[h := v])"
  using assms
proof (induction xs h s len arbitrary: xs' h' s' rule: adjust_heap_loop.induct)
  case (1 first holeIndex secondChild len)
  show ?case
  proof (cases "secondChild < (len - 1) div 2")
    case True
    define sc where "sc = 2 * (secondChild + 1)"
    define sc' where "sc' = (if greater_frequency (first ! sc) (first ! (sc - 1)) then sc - 1 else sc)"
    have b: "sc' < len" "holeIndex < sc'" "sc' < length first"
      using True "1.prems" by (auto simp: sc_def sc'_def)
    have "adjust_heap_loop first holeIndex secondChild len
          = adjust_heap_loop (first[holeIndex := first ! sc']) sc' sc' len"
      using True by (subst adjust_heap_loop.simps) (simp add: sc_def sc'_def Let_def)
    then have eq: "adjust_heap_loop (first[holeIndex := first ! sc']) sc' sc' len = (xs', h', s')"
      using "1.prems"(1) by simp
    have "s' = h' \<and> h' < len \<and> length xs' = length (first[holeIndex := first ! sc'])
          \<and> mset (xs'[h' := v]) = mset (first[holeIndex := first ! sc', sc' := v])"
      using "1.IH" [OF True sc_def sc'_def eq] b "1.prems" by simp
    moreover have "mset (first[holeIndex := first ! sc', sc' := v]) = mset (first[holeIndex := v])"
      using b "1.prems" by (simp add: mset_update_swap)
    ultimately show ?thesis by simp
  next
    case False
    have "adjust_heap_loop first holeIndex secondChild len = (first, holeIndex, secondChild)"
      using False by (subst adjust_heap_loop.simps) simp
    then show ?thesis
      using "1.prems" by auto
  qed
qed

lemma mset_adjust_heap:
  assumes "len \<le> length xs" "h < len"
  shows "mset (adjust_heap xs h len v) = mset (xs[h := v])"
proof -
  obtain xs' h' s' where l: "adjust_heap_loop xs h h len = (xs', h', s')"
    by (cases "adjust_heap_loop xs h h len") auto
  note p = adjust_heap_loop_props [OF l refl assms, of v]
  show ?thesis
  proof (cases "len mod 2 = 0 \<and> s' = (len - 2) div 2")
    case True
    then have c: "2 * (s' + 1) - 1 < len" "h' \<noteq> 2 * (s' + 1) - 1" "2 * (s' + 1) - 1 < length xs'"
      using p assms by auto presburger+
    have "adjust_heap xs h len v
          = push_heap_aux (xs'[h' := xs' ! (2 * (s' + 1) - 1)]) (2 * (s' + 1) - 1) h v"
      using True by (simp add: adjust_heap_def l Let_def)
    then have "mset (adjust_heap xs h len v)
          = mset (xs'[h' := xs' ! (2 * (s' + 1) - 1), 2 * (s' + 1) - 1 := v])"
      using c by (simp add: mset_push_heap_aux)
    also have "\<dots> = mset (xs'[h' := v])"
      using c p assms by (intro mset_update_swap) auto
    finally show ?thesis using p by simp
  next
    case False
    then have "adjust_heap xs h len v = push_heap_aux xs' h' h v"
      by (auto simp add: adjust_heap_def l Let_def)
    then show ?thesis
      using p assms by (simp add: mset_push_heap_aux)
  qed
qed

lemma nth_push_heap_aux:
  "h < j \<Longrightarrow> push_heap_aux xs h t v ! j = xs ! j"
proof (induction xs h t v rule: push_heap_aux.induct)
  case (1 first holeIndex topIndex val)
  define parent where "parent = (holeIndex - 1) div 2"
  show ?case
  proof (cases "holeIndex > topIndex \<and> greater_frequency (first ! parent) val")
    case True
    then have lt: "parent < holeIndex" by (auto simp: parent_def)
    have "push_heap_aux (first[holeIndex := first ! parent]) parent topIndex val ! j
          = first[holeIndex := first ! parent] ! j"
      using "1.IH" [of parent] True lt "1.prems" by (simp add: parent_def)
    then show ?thesis
      using True "1.prems" by (subst push_heap_aux.simps) (simp add: parent_def Let_def)
  next
    case False
    then show ?thesis
      using "1.prems" by (subst push_heap_aux.simps) (auto simp add: parent_def Let_def)
  qed
qed

lemma nth_adjust_heap_loop:
  assumes "adjust_heap_loop xs h s len = (xs', h', s')" "s = h" "h < len" "len \<le> j"
  shows "xs' ! j = xs ! j"
  using assms
proof (induction xs h s len arbitrary: xs' h' s' rule: adjust_heap_loop.induct)
  case (1 first holeIndex secondChild len)
  show ?case
  proof (cases "secondChild < (len - 1) div 2")
    case True
    define sc where "sc = 2 * (secondChild + 1)"
    define sc' where "sc' = (if greater_frequency (first ! sc) (first ! (sc - 1)) then sc - 1 else sc)"
    have b: "sc' < len" "holeIndex < sc'"
      using True "1.prems" by (auto simp: sc_def sc'_def)
    have "adjust_heap_loop first holeIndex secondChild len
          = adjust_heap_loop (first[holeIndex := first ! sc']) sc' sc' len"
      using True by (subst adjust_heap_loop.simps) (simp add: sc_def sc'_def Let_def)
    then have eq: "adjust_heap_loop (first[holeIndex := first ! sc']) sc' sc' len = (xs', h', s')"
      using "1.prems"(1) by simp
    have "xs' ! j = first[holeIndex := first ! sc'] ! j"
      using "1.IH" [OF True sc_def sc'_def eq] b "1.prems" by simp
    then show ?thesis using "1.prems" by simp
  next
    case False
    have "adjust_heap_loop first holeIndex secondChild len = (first, holeIndex, secondChild)"
      using False by (subst adjust_heap_loop.simps) simp
    then show ?thesis
      using "1.prems" by auto
  qed
qed

lemma nth_adjust_heap:
  assumes "len \<le> length xs" "h < len" "len \<le> j"
  shows "adjust_heap xs h len v ! j = xs ! j"
proof -
  obtain xs' h' s' where l: "adjust_heap_loop xs h h len = (xs', h', s')"
    by (cases "adjust_heap_loop xs h h len") auto
  note p = adjust_heap_loop_props [OF l refl assms(1,2), of v]
  note q = nth_adjust_heap_loop [OF l refl assms(2,3)]
  show ?thesis
  proof (cases "len mod 2 = 0 \<and> s' = (len - 2) div 2")
    case True
    then have c: "2 * (s' + 1) - 1 < len" "h' \<noteq> 2 * (s' + 1) - 1"
      using p assms by auto presburger+
    have "adjust_heap xs h len v
          = push_heap_aux (xs'[h' := xs' ! (2 * (s' + 1) - 1)]) (2 * (s' + 1) - 1) h v"
      using True by (simp add: adjust_heap_def l Let_def)
    then show ?thesis
      using c p q assms by (simp add: nth_push_heap_aux)
  next
    case False
    then have "adjust_heap xs h len v = push_heap_aux xs' h' h v"
      by (auto simp add: adjust_heap_def l Let_def)
    then show ?thesis
      using p q assms by (simp add: nth_push_heap_aux)
  qed
qed

lemma mset_pq_push: "mset (pq_push x c) = add_mset x (mset c)"
  by (simp add: pq_push_def mset_push_heap_aux)

lemma mset_pq_pop: "c \<noteq> [] \<Longrightarrow> add_mset (hd c) (mset (pq_pop c)) = mset c"
proof (cases "length c > 1")
  case True
  define n where "n = length c - 1"
  define ys where "ys = adjust_heap (c[n := c ! 0]) 0 n (c ! n)"
  have len: "length ys = Suc n" using True by (simp add: ys_def n_def)
  have n: "0 < n" "n < length c" using True by (auto simp: n_def)
  have "mset ys = mset (c[n := c ! 0, 0 := c ! n])"
    using n by (simp add: ys_def mset_adjust_heap)
  also have "\<dots> = mset c"
    using n by (intro mset_swap) auto
  finally have m: "mset ys = mset c" .
  have "last ys = ys ! n"
    using len by (metis diff_Suc_1 last_conv_nth length_0_conv nat.distinct(1))
  also have "\<dots> = c[n := c ! 0] ! n"
    unfolding ys_def using n by (intro nth_adjust_heap) auto
  also have "\<dots> = c ! 0"
    using n by simp
  also have "\<dots> = hd c"
    using n by (cases c) auto
  finally have l: "last ys = hd c" .
  have "ys \<noteq> []" using len by auto
  then have "mset ys = add_mset (last ys) (mset (butlast ys))"
    by (metis append_butlast_last_id mset.simps(2) mset_append union_mset_add_mset_right add.right_neutral mset.simps(1))
  moreover have "pq_pop c = butlast ys"
    using True by (simp add: pq_pop_def ys_def n_def)
  ultimately show ?thesis using m l by simp
next
  case False
  assume "c \<noteq> []"
  with False obtain x where "c = [x]" by (cases c) auto
  then show ?thesis by (simp add: pq_pop_def)
qed

section \<open>The substitution table holds the paths to the leaves\<close>

lemma branch_nullptr [simp]: "branch nullptr p = nullptr"
  by (cases p) auto

lemma branch_append: "branch t (p @ q) = branch (branch t p) q"
  by (induction t p rule: branch.induct) auto

lemma branch_leaf: "is_leaf t \<Longrightarrow> branch t p \<noteq> nullptr \<Longrightarrow> p = []"
  by (cases t; cases p) (auto simp: is_leaf_def split: if_splits)

lemma branch_chars: "branch t p \<noteq> nullptr \<Longrightarrow> set p \<subseteq> {LEFT_CHAR, RIGHT_CHAR}"
  by (induction t p rule: branch.induct) (auto split: if_splits)

lemma table_keys:
  "fst ` set (create_substitution_table t tab s) = fst ` set tab \<union> set_mset (leaves t)"
  by (induction t arbitrary: tab s) (auto simp: keys_map_assign Let_def)

lemma table_sorted:
  "sorted_wrt (<) (map fst tab) \<Longrightarrow> sorted_wrt (<) (map fst (create_substitution_table t tab s))"
  by (induction t arbitrary: tab s) (auto simp: sorted_map_assign Let_def)

lemma table_entry:
  "map_of (create_substitution_table t tab s) b = Some c \<Longrightarrow>
   map_of tab b = Some c \<or> (\<exists>p. c = s @ p \<and> is_leaf (branch t p) \<and> byte (branch t p) = b)"
proof (induction t arbitrary: tab s c)
  case nullptr
  then show ?case by simp
next
  case (HuffmanNode b' f l r)
  define t0 where "t0 = (if l = nullptr \<and> r = nullptr then map_assign b' s tab else tab)"
  define t1 where "t1 = create_substitution_table l t0 (s @ [LEFT_CHAR])"
  have res: "create_substitution_table (HuffmanNode b' f l r) tab s
             = create_substitution_table r t1 (s @ [RIGHT_CHAR])"
    by (simp add: t0_def t1_def Let_def)
  let ?t = "HuffmanNode b' f l r"
  have "map_of (create_substitution_table r t1 (s @ [RIGHT_CHAR])) b = Some c"
    using HuffmanNode.prems unfolding res .
  then have "map_of t1 b = Some c \<or> (\<exists>p. c = (s @ [RIGHT_CHAR]) @ p \<and> is_leaf (branch r p) \<and> byte (branch r p) = b)"
    by (rule HuffmanNode.IH(2))
  then consider (R) p where "c = s @ RIGHT_CHAR # p" "is_leaf (branch r p)" "byte (branch r p) = b"
    | (L) p where "c = s @ LEFT_CHAR # p" "is_leaf (branch l p)" "byte (branch l p) = b"
    | (H) "map_of t0 b = Some c"
    using HuffmanNode.IH(1) [of t0 "s @ [LEFT_CHAR]" c] by (auto simp: t1_def)
  then show ?case
  proof cases
    case R
    have "branch ?t (RIGHT_CHAR # p) = branch r p"
      by (simp add: LEFT_CHAR_def RIGHT_CHAR_def)
    then show ?thesis using R by metis
  next
    case L
    have "branch ?t (LEFT_CHAR # p) = branch l p" by simp
    then show ?thesis using L by metis
  next
    case H
    show ?thesis
    proof (cases "l = nullptr \<and> r = nullptr \<and> b = b'")
      case True
      then have "c = s" using H by (simp add: t0_def map_of_map_assign)
      moreover have "is_leaf (branch ?t [])" "byte (branch ?t []) = b"
        using True by (simp_all add: is_leaf_def)
      ultimately show ?thesis by (metis append_Nil2)
    next
      case False
      then have "map_of tab b = Some c"
        using H by (auto simp: t0_def map_of_map_assign split: if_splits)
      then show ?thesis by simp
    qed
  qed
qed

lemma table_codes:
  assumes "(b, c) \<in> set (create_substitution_table t [] [])"
  shows "is_leaf (branch t c) \<and> byte (branch t c) = b"
proof -
  have "sorted_wrt (<) (map fst (create_substitution_table t [] []))"
    by (simp add: table_sorted)
  then have "distinct (map fst (create_substitution_table t [] []))"
    using strict_sorted_iff by blast
  then have "map_of (create_substitution_table t [] []) b = Some c"
    using assms by simp
  then show ?thesis
    using table_entry [of t "[]" "[]" b c] by auto
qed

section \<open>The tree built from a frequency table\<close>

lemma heap_leaves_push: "heap_leaves (pq_push x c) = leaves x + heap_leaves c"
  by (simp add: heap_leaves_def mset_pq_push)

lemma heap_leaves_pop: "c \<noteq> [] \<Longrightarrow> leaves (hd c) + heap_leaves (pq_pop c) = heap_leaves c"
  using mset_pq_pop [of c] by (simp add: heap_leaves_def flip: sum_mset.add_mset image_mset_add_mset)

lemma set_pq_push: "set (pq_push x c) = insert x (set c)"
  using mset_pq_push [of x c] by (metis set_mset_add_mset_insert set_mset_mset)

lemma set_pq_pop: "c \<noteq> [] \<Longrightarrow> insert (hd c) (set (pq_pop c)) = set c"
  using mset_pq_pop [of c] by (metis set_mset_add_mset_insert set_mset_mset)

lemma leaves_new_internal:
  "l \<noteq> nullptr \<Longrightarrow> leaves (new_internal l r) = leaves l + leaves r"
  by (simp add: new_internal_def)

lemma merge_step_props:
  assumes "1 < length c" "nullptr \<notin> set c"
  shows "heap_leaves (merge_step c) = heap_leaves c \<and> nullptr \<notin> set (merge_step c)"
proof -
  define h1 where "h1 = pq_pop c"
  define h2 where "h2 = pq_pop h1"
  have "length h1 = length c - 1" by (simp add: h1_def)
  then have ne: "c \<noteq> []" "h1 \<noteq> []" using assms by auto
  have s1: "insert (hd c) (set h1) = set c" unfolding h1_def using ne by (intro set_pq_pop)
  have s2: "insert (hd h1) (set h2) = set h1" unfolding h2_def using ne by (intro set_pq_pop)
  have nn: "hd c \<noteq> nullptr" "hd h1 \<noteq> nullptr" "nullptr \<notin> set h2"
    using s1 s2 assms(2) by auto
  have m: "merge_step c = pq_push (new_internal (hd c) (hd h1)) h2"
    by (simp add: merge_step_def h1_def h2_def Let_def)
  have "heap_leaves (merge_step c) = leaves (hd c) + (leaves (hd h1) + heap_leaves h2)"
    using nn by (simp add: m heap_leaves_push leaves_new_internal)
  also have "\<dots> = heap_leaves c"
    using heap_leaves_pop [OF ne(1)] heap_leaves_pop [OF ne(2)] by (simp add: h1_def h2_def)
  finally show ?thesis
    using nn by (simp add: m set_pq_push new_internal_def)
qed

lemma merge_loop_props:
  assumes "c \<noteq> []" "nullptr \<notin> set c"
  shows "\<exists>root. merge_loop c = [root] \<and> root \<noteq> nullptr \<and> leaves root = heap_leaves c"
  using assms
proof (induction c rule: merge_loop.induct)
  case (1 nodeHeap)
  show ?case
  proof (cases "length nodeHeap > 1")
    case True
    have p: "heap_leaves (merge_step nodeHeap) = heap_leaves nodeHeap"
            "nullptr \<notin> set (merge_step nodeHeap)"
      using merge_step_props [OF True "1.prems"(2)] by auto
    have "merge_step nodeHeap \<noteq> []"
      using length_merge_step [OF True] True by auto
    then show ?thesis
      using "1.IH" [OF True] p True by (subst merge_loop.simps) simp
  next
    case False
    then obtain x where x: "nodeHeap = [x]"
      using "1.prems" by (cases nodeHeap) auto
    then show ?thesis
      using "1.prems" by (subst merge_loop.simps) (simp add: heap_leaves_def)
  qed
qed

lemma push_leaves_fold:
  "nullptr \<notin> set c \<Longrightarrow>
   heap_leaves (fold (\<lambda>(b, f) nodeHeap. pq_push (new_leaf b f) nodeHeap) fr c)
     = mset (map fst fr) + heap_leaves c
   \<and> nullptr \<notin> set (fold (\<lambda>(b, f) nodeHeap. pq_push (new_leaf b f) nodeHeap) fr c)
   \<and> length (fold (\<lambda>(b, f) nodeHeap. pq_push (new_leaf b f) nodeHeap) fr c) = length fr + length c"
proof (induction fr arbitrary: c)
  case Nil
  then show ?case by simp
next
  case (Cons p fr)
  obtain b f where p: "p = (b, f)" by (cases p)
  have "nullptr \<notin> set (pq_push (new_leaf b f) c)"
    using Cons.prems by (simp add: set_pq_push new_leaf_def)
  from Cons.IH [OF this] show ?case
    by (simp add: p heap_leaves_push new_leaf_def)
qed

lemma push_leaves_props:
  "heap_leaves (push_leaves fr) = mset (map fst fr) \<and> nullptr \<notin> set (push_leaves fr)
   \<and> length (push_leaves fr) = length fr"
  using push_leaves_fold [of "[]" fr] by (simp add: push_leaves_def heap_leaves_def)

lemma build_huffman_tree_empty: "build_huffman_tree [] = Inl Undefined_behaviour"
  by (simp add: build_huffman_tree_def push_leaves_def merge_loop.simps pq_top_def)

lemma build_huffman_tree_props:
  assumes "frequencies \<noteq> []"
  shows "\<exists>root. build_huffman_tree frequencies = Inr root \<and> root \<noteq> nullptr
           \<and> leaves root = mset (map fst frequencies)"
proof -
  have "push_leaves frequencies \<noteq> []"
    using push_leaves_props [of frequencies] assms by auto
  then obtain root where "merge_loop (push_leaves frequencies) = [root]" "root \<noteq> nullptr"
      "leaves root = heap_leaves (push_leaves frequencies)"
    using merge_loop_props push_leaves_props by blast
  then show ?thesis
    by (simp add: build_huffman_tree_def pq_top_def push_leaves_props)
qed

lemma build_huffman_tree_Inl:
  "build_huffman_tree frequencies = Inl e \<longleftrightarrow> frequencies = [] \<and> e = Undefined_behaviour"
proof (cases "frequencies = []")
  case True
  then show ?thesis by (auto simp: build_huffman_tree_empty)
next
  case False
  then show ?thesis using build_huffman_tree_props [of frequencies] by auto
qed

section \<open>The loops of compress\<close>

lemma fold_encoded_size_step:
  assumes "fst ` set tab \<subseteq> fst ` set fr"
  shows "fold encoded_size_step tab (acc, fr)
         = (acc + (\<Sum>(b, c)\<leftarrow>tab. the (map_of fr b) * of_nat (length c)), fr)"
  using assms
proof (induction tab arbitrary: acc)
  case Nil
  then show ?case by simp
next
  case (Cons p tab)
  obtain b c where p: "p = (b, c)" by (cases p)
  have "b \<in> fst ` set fr" using Cons.prems by (auto simp: p)
  then obtain v where v: "map_of fr b = Some v"
    by (metis map_of_eq_None_iff not_Some_eq)
  have "encoded_size_step p (acc, fr) = (acc + v * of_nat (length c), fr)"
    by (simp add: encoded_size_step_def p map_index_present [OF v])
  then show ?case
    using Cons v by (simp add: p add.assoc)
qed

lemma fold_encode_step:
  assumes "set data \<subseteq> fst ` set tab"
  shows "fold encode_step data (acc, tab) = (acc @ concat (map (code_of tab) data), tab)"
  using assms
proof (induction data arbitrary: acc)
  case Nil
  then show ?case by simp
next
  case (Cons ch data)
  have "ch \<in> fst ` set tab" using Cons.prems by auto
  then obtain v where v: "map_of tab ch = Some v"
    by (metis map_of_eq_None_iff not_Some_eq)
  have "encode_step ch (acc, tab) = (acc @ v, tab)"
    by (simp add: encode_step_def map_index_present [OF v])
  moreover have "code_of tab ch = v"
    by (simp add: code_of_def map_index_present [OF v])
  ultimately show ?case
    using Cons by simp
qed

lemma sum_codes_by_table:
  assumes "sorted_wrt (<) (map fst tab)" "fst ` set tab = set data"
  shows "(\<Sum>ch\<leftarrow>data. length (code_of tab ch)) = (\<Sum>(b, c)\<leftarrow>tab. count_list data b * length c)"
proof -
  have d: "distinct (map fst tab)" using assms(1) strict_sorted_iff by blast
  then have dt: "distinct tab" by (simp add: distinct_map)
  have inj: "inj_on fst (set tab)" using d by (simp add: distinct_map)
  have code: "code_of tab b = c" if "(b, c) \<in> set tab" for b c
    using that d by (simp add: code_of_def map_index_def)
  have "(\<Sum>ch\<leftarrow>data. length (code_of tab ch))
        = (\<Sum>x\<in>set data. count_list data x * length (code_of tab x))"
    by (rule sum_list_map_eq_sum_count)
  also have "\<dots> = (\<Sum>x\<in>fst ` set tab. count_list data x * length (code_of tab x))"
    by (simp add: assms(2))
  also have "\<dots> = (\<Sum>p\<in>set tab. count_list data (fst p) * length (code_of tab (fst p)))"
    using inj by (simp add: sum.reindex)
  also have "\<dots> = (\<Sum>p\<in>set tab. case p of (b, c) \<Rightarrow> count_list data b * length c)"
    by (rule sum.cong) (auto simp: code)
  also have "\<dots> = (\<Sum>(b, c)\<leftarrow>tab. count_list data b * length c)"
    using dt by (simp add: sum_list_distinct_conv_sum_set)
  finally show ?thesis .
qed

lemma of_nat_sum_list_table:
  "(of_nat (\<Sum>(b, c)\<leftarrow>tab. f b * length c) :: uint32_t) = (\<Sum>(b, c)\<leftarrow>tab. of_nat (f b) * of_nat (length c))"
  by (induction tab) auto

lemma bitset_to_ulong_ok:
  "set cs \<subseteq> {CHR ''0'', CHR ''1''} \<Longrightarrow> \<exists>v. bitset_to_ulong cs = Inr v"
  by (auto simp: bitset_to_ulong_def)

lemma write_packed_ok:
  "set cs \<subseteq> {CHR ''0'', CHR ''1''} \<Longrightarrow> \<exists>bs. write_packed cs = Inr bs"
proof (induction cs rule: write_packed.induct)
  case (1 compressed_data)
  show ?case
  proof (cases "compressed_data = []")
    case True
    then show ?thesis by (subst write_packed.simps) simp
  next
    case False
    have "set (take CHAR_BIT compressed_data) \<subseteq> {CHR ''0'', CHR ''1''}"
      using "1.prems" by (meson set_take_subset subset_trans)
    then obtain v where v: "bitset_to_ulong (take CHAR_BIT compressed_data) = Inr v"
      using bitset_to_ulong_ok by blast
    have "set (drop CHAR_BIT compressed_data) \<subseteq> {CHR ''0'', CHR ''1''}"
      using "1.prems" by (meson set_drop_subset subset_trans)
    from "1.IH" [OF False v this] obtain bs where
      bs: "write_packed (drop CHAR_BIT compressed_data) = Inr bs"
      by blast
    have "write_packed compressed_data = Inr (of_nat v # bs)"
      using False v bs by (subst write_packed.simps) simp
    then show ?thesis by simp
  qed
qed

lemma write_packed_length:
  "write_packed cs = Inr bs \<Longrightarrow> 8 dvd length cs \<Longrightarrow> length bs * 8 = length cs"
proof (induction cs arbitrary: bs rule: write_packed.induct)
  case (1 compressed_data)
  show ?case
  proof (cases "compressed_data = []")
    case True
    then show ?thesis using "1.prems"(1) by (subst (asm) write_packed.simps) auto
  next
    case False
    then have "0 < length compressed_data" by simp
    then have ge: "8 \<le> length compressed_data"
      using "1.prems"(2) by (rule dvd_imp_le [rotated])
    then have dv: "8 dvd length (drop CHAR_BIT compressed_data)"
      using "1.prems"(2) by (simp add: CHAR_BIT_def)
    from "1.prems"(1) False obtain v bs' where
      v: "bitset_to_ulong (take CHAR_BIT compressed_data) = Inr v"
      and bs': "write_packed (drop CHAR_BIT compressed_data) = Inr bs'"
      and bs: "bs = of_nat v # bs'"
      by (subst (asm) write_packed.simps) (auto split: sum.splits)
    have "length bs' * 8 = length (drop CHAR_BIT compressed_data)"
      using "1.IH" [OF False v bs' dv] .
    then show ?thesis using ge by (simp add: bs CHAR_BIT_def)
  qed
qed

section \<open>What compress computes on data that is not empty\<close>

lemma unat_padding:
  "unat (of_nat CHAR_BIT - ((of_nat n :: uint32_t) mod of_nat CHAR_BIT)) = 8 - n mod 8"
proof -
  let ?w = "(of_nat n :: uint32_t) mod 8"
  have "unat ?w = (n mod 2 ^ 32) mod 8"
    by (simp add: unat_mod unat_of_nat)
  also have "\<dots> = n mod 8"
    by (rule mod_mod_cancel) simp
  finally have u: "unat ?w = n mod 8" .
  then have "unat ?w \<le> unat (8 :: uint32_t)" by simp
  then have "?w \<le> 8" by (simp only: word_le_nat_alt)
  then have "unat (8 - ?w) = unat (8 :: uint32_t) - unat ?w" by (rule unat_sub)
  then show ?thesis using u by (simp add: CHAR_BIT_def)
qed

lemma code_of_entry:
  assumes "sorted_wrt (<) (map fst tab)" "ch \<in> fst ` set tab"
  shows "(ch, code_of tab ch) \<in> set tab"
proof -
  obtain c where c: "(ch, c) \<in> set tab" using assms(2) by auto
  have "distinct (map fst tab)" using assms(1) strict_sorted_iff by blast
  then have "map_of tab ch = Some c" using c by simp
  then show ?thesis using c by (simp add: code_of_def map_index_def)
qed

lemma table_of_tree:
  "sorted_wrt (<) (map fst (create_substitution_table root [] []))"
  "fst ` set (create_substitution_table root [] []) = set_mset (leaves root)"
  by (simp_all add: table_sorted table_keys)

lemma code_of_chars:
  assumes "ch \<in># leaves root"
  shows "set (code_of (create_substitution_table root [] []) ch) \<subseteq> {CHR ''0'', CHR ''1''}"
proof -
  let ?tab = "create_substitution_table root [] []"
  have "(ch, code_of ?tab ch) \<in> set ?tab"
    using assms by (intro code_of_entry) (simp_all add: table_of_tree)
  then have "is_leaf (branch root (code_of ?tab ch))"
    using table_codes by blast
  then have "branch root (code_of ?tab ch) \<noteq> nullptr" by (simp add: is_leaf_def)
  then show ?thesis
    using branch_chars by (fastforce simp: LEFT_CHAR_def RIGHT_CHAR_def)
qed

lemma compress_arguments_nonempty:
  assumes "data \<noteq> []"
  shows "\<exists>root. build_huffman_tree (count_frequencies data) = Inr root \<and> root \<noteq> nullptr
           \<and> set_mset (leaves root) = set data
           \<and> size (leaves root) = length (count_frequencies data)
           \<and> compress_arguments data =
               Inr (of_nat (length data),
                    concat (map (code_of (create_substitution_table root [] [])) data),
                    of_nat CHAR_BIT - (of_nat (length (concat (map (code_of (create_substitution_table root [] [])) data))) mod of_nat CHAR_BIT),
                    count_frequencies data)"
proof -
  define fr where "fr = count_frequencies data"
  have keys: "fst ` set fr = set data" by (simp add: fr_def count_frequencies_keys)
  then have "fr \<noteq> []" using assms by auto
  then obtain root where root: "build_huffman_tree fr = Inr root" "root \<noteq> nullptr"
      "leaves root = mset (map fst fr)"
    using build_huffman_tree_props by blast
  define tab where "tab = create_substitution_table root [] []"
  have lv: "set_mset (leaves root) = set data" using root(3) keys by simp
  have sz: "size (leaves root) = length fr" using root(3) by simp
  have tk: "fst ` set tab = set data" by (simp add: tab_def table_of_tree lv)
  have ts: "sorted_wrt (<) (map fst tab)" by (simp add: tab_def table_of_tree)
  define encoded where "encoded = concat (map (code_of tab) data)"
  have "fold encoded_size_step tab (0, fr)
        = (0 + (\<Sum>(b, c)\<leftarrow>tab. the (map_of fr b) * of_nat (length c)), fr)"
    by (rule fold_encoded_size_step) (simp add: tk keys)
  moreover have "(\<Sum>(b, c)\<leftarrow>tab. the (map_of fr b) * of_nat (length c))
        = (\<Sum>(b, c)\<leftarrow>tab. (of_nat (count_list data b) :: uint32_t) * of_nat (length c))"
  proof (rule arg_cong [where f = sum_list], rule map_cong [OF refl])
    fix p assume "p \<in> set tab"
    then have "fst p \<in> set data" using tk by auto
    then have "map_of fr (fst p) = Some (of_nat (count_list data (fst p)))"
      by (simp add: fr_def count_frequencies_map_of)
    then show "(case p of (b, c) \<Rightarrow> the (map_of fr b) * of_nat (length c))
               = (case p of (b, c) \<Rightarrow> (of_nat (count_list data b) :: uint32_t) * of_nat (length c))"
      by (cases p) simp
  qed
  moreover have "(\<Sum>(b, c)\<leftarrow>tab. (of_nat (count_list data b) :: uint32_t) * of_nat (length c))
        = of_nat (\<Sum>(b, c)\<leftarrow>tab. count_list data b * length c)"
    by (simp add: of_nat_sum_list_table)
  moreover have "(\<Sum>(b, c)\<leftarrow>tab. count_list data b * length c) = (\<Sum>ch\<leftarrow>data. length (code_of tab ch))"
    using sum_codes_by_table [OF ts tk] by simp
  moreover have "(\<Sum>ch\<leftarrow>data. length (code_of tab ch)) = length encoded"
    by (simp add: encoded_def length_concat comp_def)
  ultimately have es: "fold encoded_size_step tab (0, fr) = (of_nat (length encoded), fr)"
    by simp
  have en: "fold encode_step data ([], tab) = (encoded, tab)"
    using fold_encode_step [of data tab "[]"] by (simp add: tk encoded_def)
  have "compress_arguments data =
          Inr (of_nat (length data), encoded,
               of_nat CHAR_BIT - (of_nat (length encoded) mod of_nat CHAR_BIT), fr)"
    using root(1) es en
    by (simp add: compress_arguments_def Let_def fr_def [symmetric] tab_def [symmetric])
  then show ?thesis
    using root lv sz by (auto simp: fr_def tab_def encoded_def)
qed

lemma write_compressed_file_ok:
  assumes "set encoded \<subseteq> {CHR ''0'', CHR ''1''}"
  shows "\<exists>file. write_compressed_file p original_file_size encoded padding frequencies
           = Inr (file, encoded @ replicate (unat padding) PADDING_BIT)"
proof -
  have "set (encoded @ replicate (unat padding) PADDING_BIT) \<subseteq> {CHR ''0'', CHR ''1''}"
    using assms by (auto simp: PADDING_BIT_def)
  then obtain bs where "write_packed (encoded @ replicate (unat padding) PADDING_BIT) = Inr bs"
    using write_packed_ok by blast
  then show ?thesis
    by (simp add: write_compressed_file_def Let_def)
qed

lemma padding_range:
  fixes padding :: uint32_t
  assumes "unat padding = 8 - n mod 8"
  shows "0 < padding \<and> padding \<le> 8"
proof -
  have "0 < unat padding" "unat padding \<le> unat (8 :: uint32_t)"
    using assms by simp_all
  then show ?thesis
    by (simp only: word_le_nat_alt word_less_nat_alt unat_0) 
qed

lemma compress_nonempty:
  assumes "data \<noteq> []"
  shows "\<exists>root original_file_size encoded padding frequencies file encoded'.
       build_huffman_tree (count_frequencies data) = Inr root
     \<and> compress_arguments data = Inr (original_file_size, encoded, padding, frequencies)
     \<and> write_compressed_file p original_file_size encoded padding frequencies = Inr (file, encoded')
     \<and> compress p data = Inr (file, of_nat (length encoded' div CHAR_BIT))
     \<and> unat padding = 8 - length encoded mod 8
     \<and> 0 < padding \<and> padding \<le> 8
     \<and> encoded' = encoded @ replicate (unat padding) PADDING_BIT
     \<and> length encoded' mod 8 = 0
     \<and> (length encoded' div CHAR_BIT) * 8
         = (\<Sum>ch\<leftarrow>data. length (code_of (create_substitution_table root [] []) ch)) + unat padding"
proof -
  obtain root where root: "build_huffman_tree (count_frequencies data) = Inr root"
      "set_mset (leaves root) = set data"
      and args: "compress_arguments data =
               Inr (of_nat (length data),
                    concat (map (code_of (create_substitution_table root [] [])) data),
                    of_nat CHAR_BIT - (of_nat (length (concat (map (code_of (create_substitution_table root [] [])) data))) mod of_nat CHAR_BIT),
                    count_frequencies data)"
    using compress_arguments_nonempty [OF assms] by blast
  define tab where "tab = create_substitution_table root [] []"
  define encoded where "encoded = concat (map (code_of tab) data)"
  define padding :: uint32_t where
    "padding = of_nat CHAR_BIT - (of_nat (length encoded) mod of_nat CHAR_BIT)"
  define encoded' where "encoded' = encoded @ replicate (unat padding) PADDING_BIT"
  have pad: "unat padding = 8 - length encoded mod 8"
    by (simp add: padding_def unat_padding)
  have chars: "set encoded \<subseteq> {CHR ''0'', CHR ''1''}"
    using code_of_chars [of _ root] root(2) by (auto simp: encoded_def tab_def)
  obtain fl where wf:
    "write_compressed_file p (of_nat (length data)) encoded padding (count_frequencies data)
       = Inr (fl, encoded')"
    using write_compressed_file_ok [OF chars, of p "of_nat (length data)" padding "count_frequencies data"]
    unfolding encoded'_def by blast
  have len: "length encoded' = length encoded + (8 - length encoded mod 8)"
    by (simp add: encoded'_def pad)
  have m: "length encoded' mod 8 = 0"
    unfolding len by presburger
  have sum: "(\<Sum>ch\<leftarrow>data. length (code_of tab ch)) = length encoded"
    by (simp add: encoded_def length_concat comp_def)
  have "(length encoded' div CHAR_BIT) * 8 = length encoded'"
    using m by (simp add: CHAR_BIT_def mod_0_imp_dvd)
  then have acc: "(length encoded' div CHAR_BIT) * 8
                  = (\<Sum>ch\<leftarrow>data. length (code_of tab ch)) + unat padding"
    by (simp add: sum len pad)
  have c: "compress p data = Inr (fl, of_nat (length encoded' div CHAR_BIT))"
    using args wf by (simp add: compress_def tab_def encoded_def padding_def)
  have a: "compress_arguments data = Inr (of_nat (length data), encoded, padding, count_frequencies data)"
    using args by (simp add: tab_def encoded_def padding_def)
  show ?thesis
    using root(1) a wf c pad padding_range [OF pad] m acc
    unfolding tab_def [symmetric]
    by (intro exI [of _ root] exI [of _ "of_nat (length data)"] exI [of _ encoded]
          exI [of _ padding] exI [of _ "count_frequencies data"] exI [of _ fl]
          exI [of _ encoded']) (simp add: encoded'_def tab_def)
qed

section \<open>Reading a container that is too short\<close>

lemma read_object_short:
  "read_object p n s = (Some v, s') \<Longrightarrow> \<exists>bs. s = Some bs \<and> n \<le> length bs \<and> s' = Some (drop n bs)"
  by (auto simp: read_object_def split: option.splits if_splits)

lemma read_compressed_file_short:
  assumes "length file < 16"
  shows "read_compressed_file p file = Inl Undefined_behaviour"
proof -
  obtain a s1 where r1: "read_object p 4 (Some file) = (a, s1)" by (cases "read_object p 4 (Some file)")
  obtain b s2 where r2: "read_object p 4 s1 = (b, s2)" by (cases "read_object p 4 s1")
  obtain c s3 where r3: "read_object p 4 s2 = (c, s3)" by (cases "read_object p 4 s2")
  obtain d s4 where r4: "read_object p 4 s3 = (d, s4)" by (cases "read_object p 4 s3")
  have "d = None"
  proof (rule ccontr)
    assume "d \<noteq> None"
    then obtain v where "read_object p 4 s3 = (Some v, s4)" using r4 by auto
    then obtain bs3 where b3: "s3 = Some bs3" "4 \<le> length bs3" using read_object_short by blast
    then have "c \<noteq> None" using r3 by (auto simp: read_object_def split: option.splits if_splits)
    then obtain v3 where "read_object p 4 s2 = (Some v3, s3)" using r3 by auto
    then obtain bs2 where b2: "s2 = Some bs2" "4 \<le> length bs2" "s3 = Some (drop 4 bs2)"
      using read_object_short by blast
    then have "b \<noteq> None" using r2 by (auto simp: read_object_def split: option.splits if_splits)
    then obtain v2 where "read_object p 4 s1 = (Some v2, s2)" using r2 by auto
    then obtain bs1 where b1: "s1 = Some bs1" "4 \<le> length bs1" "s2 = Some (drop 4 bs1)"
      using read_object_short by blast
    then have "a \<noteq> None" using r1 by (auto simp: read_object_def split: option.splits if_splits)
    then obtain v1 where "read_object p 4 (Some file) = (Some v1, s1)" using r1 by auto
    then obtain bs0 where b0: "Some file = Some bs0" "4 \<le> length bs0" "s1 = Some (drop 4 bs0)"
      using read_object_short by blast
    have "bs1 = drop 4 file" "bs2 = drop 4 bs1" "bs3 = drop 4 bs2"
      using b0 b1 b2 b3 by auto
    then have "length bs3 = length file - 12" by simp
    then show False using b3(2) assms by simp
  qed
  then show ?thesis
    by (simp add: read_compressed_file_def r1 r2 r3 r4)
qed

section \<open>The table of a built tree\<close>

lemma build_huffman_tree_single:
  "build_huffman_tree [(b, f)] = Inr (HuffmanNode b f nullptr nullptr)"
proof -
  have "push_leaves [(b, f)] = [new_leaf b f]"
    by (simp add: push_leaves_def pq_push_def push_heap_aux.simps)
  then show ?thesis
    by (simp add: build_huffman_tree_def merge_loop.simps pq_top_def new_leaf_def)
qed

lemma code_table_of_built_tree:
  assumes "frequencies \<noteq> []"
  shows "\<exists>root. build_huffman_tree frequencies = Inr root
     \<and> fst ` set (create_substitution_table root [] []) = fst ` set frequencies
     \<and> (\<forall>(b, c) \<in> set (create_substitution_table root [] []).
          is_leaf (branch root c) \<and> byte (branch root c) = b
          \<and> set c \<subseteq> {LEFT_CHAR, RIGHT_CHAR}
          \<and> (c = [] \<longleftrightarrow> length frequencies = 1))"
proof -
  obtain root where root: "build_huffman_tree frequencies = Inr root" "root \<noteq> nullptr"
      "leaves root = mset (map fst frequencies)"
    using build_huffman_tree_props [OF assms] by blast
  let ?tab = "create_substitution_table root [] []"
  have keys: "fst ` set ?tab = fst ` set frequencies"
    by (simp add: table_of_tree root(3))
  have "is_leaf (branch root c) \<and> byte (branch root c) = b
          \<and> set c \<subseteq> {LEFT_CHAR, RIGHT_CHAR} \<and> (c = [] \<longleftrightarrow> length frequencies = 1)"
    if bc: "(b, c) \<in> set ?tab" for b c
  proof -
    have lf: "is_leaf (branch root c)" "byte (branch root c) = b"
      using table_codes [OF bc] by auto
    then have "branch root c \<noteq> nullptr" by (simp add: is_leaf_def)
    then have ch: "set c \<subseteq> {LEFT_CHAR, RIGHT_CHAR}" by (rule branch_chars)
    have "length frequencies = 1" if "c = []"
    proof -
      have "is_leaf root" using lf(1) that by simp
      then have "leaves root = {#byte root#}"
        by (cases root) (auto simp: is_leaf_def)
      then have "size (mset (map fst frequencies)) = 1" using root(3) by simp
      then show ?thesis by simp
    qed
    moreover have "c = []" if "length frequencies = 1"
    proof -
      have "\<exists>p. frequencies = [p]"
        using that by (simp add: length_Suc_conv)
      then obtain b0 f0 where "frequencies = [(b0, f0)]" by auto
      then have "root = HuffmanNode b0 f0 nullptr nullptr"
        using root(1) by (simp add: build_huffman_tree_single)
      then have "is_leaf root" by (simp add: is_leaf_def)
      then show ?thesis using \<open>branch root c \<noteq> nullptr\<close> branch_leaf by blast
    qed
    ultimately show ?thesis using lf ch by blast
  qed
  then show ?thesis using root(1) keys by blast
qed

section \<open>The priority queue is a heap on the frequencies\<close>

lemma children_geD:
  "children_ge n xs h v \<Longrightarrow> 0 < k \<Longrightarrow> k < n \<Longrightarrow> (k - 1) div 2 = h \<Longrightarrow> freq v \<le> freq (xs ! k)"
  by (simp add: children_ge_def)

lemma child_cases: "0 < (k::nat) \<Longrightarrow> (k - 1) div 2 = h \<longleftrightarrow> k = 2 * h + 1 \<or> k = 2 * h + 2"
  by arith

lemma parent_less: "0 < (h::nat) \<Longrightarrow> (h - 1) div 2 < h"
  by arith

lemma heap_uptoI:
  "(\<And>i. 0 < i \<Longrightarrow> i < n \<Longrightarrow> freq (xs ! ((i - 1) div 2)) \<le> freq (xs ! i)) \<Longrightarrow> heap_upto n xs"
  by (auto simp: heap_upto_def greater_frequency_def not_less)

lemma heap_uptoD:
  "heap_upto n xs \<Longrightarrow> 0 < i \<Longrightarrow> i < n \<Longrightarrow> freq (xs ! ((i - 1) div 2)) \<le> freq (xs ! i)"
  by (auto simp: heap_upto_def greater_frequency_def not_less)

lemma hole_okD1:
  "hole_ok n xs h \<Longrightarrow> 0 < i \<Longrightarrow> i < n \<Longrightarrow> i \<noteq> h \<Longrightarrow> (i - 1) div 2 \<noteq> h
     \<Longrightarrow> freq (xs ! ((i - 1) div 2)) \<le> freq (xs ! i)"
  by (simp add: hole_ok_def)

lemma hole_okD2:
  "hole_ok n xs h \<Longrightarrow> 0 < h \<Longrightarrow> 0 < k \<Longrightarrow> k < n \<Longrightarrow> (k - 1) div 2 = h
     \<Longrightarrow> freq (xs ! ((h - 1) div 2)) \<le> freq (xs ! k)"
  by (simp add: hole_ok_def)

lemma hole_okI:
  assumes "\<And>i. 0 < i \<Longrightarrow> i < n \<Longrightarrow> i \<noteq> h \<Longrightarrow> (i - 1) div 2 \<noteq> h
              \<Longrightarrow> freq (xs ! ((i - 1) div 2)) \<le> freq (xs ! i)"
      and "\<And>k. 0 < h \<Longrightarrow> 0 < k \<Longrightarrow> k < n \<Longrightarrow> (k - 1) div 2 = h
              \<Longrightarrow> freq (xs ! ((h - 1) div 2)) \<le> freq (xs ! k)"
  shows "hole_ok n xs h"
  using assms by (simp add: hole_ok_def)

lemma sift_up_step:
  assumes ok: "hole_ok n xs h"
      and ch: "children_ge n xs h v"
      and h: "0 < h" "h < n" "n \<le> length xs"
      and gt: "freq v < freq (xs ! ((h - 1) div 2))"
  defines "p \<equiv> (h - 1) div 2"
  defines "ys \<equiv> xs[h := xs ! p]"
  shows "hole_ok n ys p" and "children_ge n ys p v"
proof -
  have ph: "p < h" using h(1) by (simp add: p_def parent_less)
  have nth: "ys ! i = (if i = h then xs ! p else xs ! i)" for i
    using h by (simp add: ys_def nth_list_update)
  have pp: "freq (xs ! ((p - 1) div 2)) \<le> freq (xs ! p)" if "0 < p"
  proof -
    have "(p - 1) div 2 < p" using that by (rule parent_less)
    then show ?thesis using hole_okD1 [OF ok that, of ] ph h by simp
  qed
  have sib: "freq (xs ! p) \<le> freq (xs ! k)" if "0 < k" "k < n" "(k - 1) div 2 = p" "k \<noteq> h" for k
    using hole_okD1 [OF ok that(1,2,4)] that(3) ph by simp
  show "hole_ok n ys p"
  proof (rule hole_okI)
    fix i assume i: "0 < i" "i < n" "i \<noteq> p" "(i - 1) div 2 \<noteq> p"
    then have ih: "i \<noteq> h" by (auto simp: p_def)
    show "freq (ys ! ((i - 1) div 2)) \<le> freq (ys ! i)"
    proof (cases "(i - 1) div 2 = h")
      case True
      then show ?thesis
        using hole_okD2 [OF ok h(1) i(1,2) True] ih by (simp add: nth p_def)
    next
      case False
      then show ?thesis
        using hole_okD1 [OF ok i(1,2) ih False] ih by (simp add: nth)
    qed
  next
    fix k assume k: "0 < p" "0 < k" "k < n" "(k - 1) div 2 = p"
    have "(p - 1) div 2 < p" using k(1) by (rule parent_less)
    then have ne: "(p - 1) div 2 \<noteq> h" using ph by simp
    show "freq (ys ! ((p - 1) div 2)) \<le> freq (ys ! k)"
    proof (cases "k = h")
      case True
      then show ?thesis using pp [OF k(1)] ne by (simp add: nth)
    next
      case False
      then show ?thesis
        using pp [OF k(1)] sib [OF k(2,3,4) False] ne by (simp add: nth)
    qed
  qed
  have "freq v \<le> freq (ys ! k)" if k: "0 < k" "k < n" "(k - 1) div 2 = p" for k
  proof (cases "k = h")
    case True
    then show ?thesis using gt by (simp add: nth p_def)
  next
    case False
    then show ?thesis using sib [OF k False] gt by (simp add: nth p_def)
  qed
  then show "children_ge n ys p v" by (simp add: children_ge_def)
qed

lemma sift_up_heap:
  assumes "hole_ok n xs h" "children_ge n xs h v" "h < n" "n \<le> length xs" "t = 0"
  shows "heap_upto n (push_heap_aux xs h t v)"
  using assms
proof (induction xs h t v rule: push_heap_aux.induct)
  case (1 first holeIndex topIndex val)
  let ?p = "(holeIndex - 1) div 2"
  show ?case
  proof (cases "holeIndex > topIndex \<and> greater_frequency (first ! ?p) val")
    case True
    then have h0: "0 < holeIndex" and gt: "freq val < freq (first ! ?p)"
      by (auto simp: greater_frequency_def)
    note st = sift_up_step [OF "1.prems"(1) "1.prems"(2) h0 "1.prems"(3,4) gt]
    have lt: "?p < n" using parent_less [OF h0] "1.prems"(3) by simp
    have le: "n \<le> length (first[holeIndex := first ! ?p])" using "1.prems"(4) by simp
    have "heap_upto n (push_heap_aux (first[holeIndex := first ! ?p]) ?p topIndex val)"
      using "1.IH" [OF refl True st(1) st(2) lt le "1.prems"(5)] .
    then show ?thesis
      using True by (subst push_heap_aux.simps) (simp add: Let_def)
  next
    case False
    have res: "push_heap_aux first holeIndex topIndex val = first[holeIndex := val]"
      using False by (subst push_heap_aux.simps) (auto simp add: Let_def)
    have nth: "first[holeIndex := val] ! i = (if i = holeIndex then val else first ! i)" for i
      using "1.prems"(3,4) by (simp add: nth_list_update)
    show ?thesis
      unfolding res
    proof (rule heap_uptoI)
      fix i assume i: "0 < i" "i < n"
      have pl: "(i - 1) div 2 < i" using i(1) by (rule parent_less)
      show "freq (first[holeIndex := val] ! ((i - 1) div 2)) \<le> freq (first[holeIndex := val] ! i)"
      proof (cases "i = holeIndex")
        case True
        then have "\<not> greater_frequency (first ! ?p) val"
          using False i(1) "1.prems"(5) by simp
        then show ?thesis
          using True pl by (simp add: nth greater_frequency_def not_less)
      next
        case ne: False
        show ?thesis
        proof (cases "(i - 1) div 2 = holeIndex")
          case True
          then show ?thesis using children_geD [OF "1.prems"(2) i True] ne by (simp add: nth)
        next
          case False
          then show ?thesis using hole_okD1 [OF "1.prems"(1) i ne False] ne by (simp add: nth)
        qed
      qed
    qed
  qed
qed

lemma is_heap_pq_push:
  assumes "is_heap c"
  shows "is_heap (pq_push x c)"
proof -
  let ?n = "Suc (length c)"
  have nth: "(c @ [x]) ! i = c ! i" if "i < length c" for i
    using that by (simp add: nth_append)
  have "hole_ok ?n (c @ [x]) (length c)"
  proof (rule hole_okI)
    fix i assume i: "0 < i" "i < ?n" "i \<noteq> length c" "(i - 1) div 2 \<noteq> length c"
    then have il: "i < length c" by simp
    then have pl: "(i - 1) div 2 < length c" using parent_less [OF i(1)] by simp
    have e: "(c @ [x]) ! i = c ! i" "(c @ [x]) ! ((i - 1) div 2) = c ! ((i - 1) div 2)"
      by (rule nth [OF il], rule nth [OF pl])
    show "freq ((c @ [x]) ! ((i - 1) div 2)) \<le> freq ((c @ [x]) ! i)"
      unfolding e by (rule heap_uptoD [OF assms [unfolded is_heap_def] i(1) il])
  next
    fix k assume "0 < k" "k < ?n" "(k - 1) div 2 = length c"
    then have False using parent_less [of k] by simp
    then show "freq ((c @ [x]) ! ((length c - 1) div 2)) \<le> freq ((c @ [x]) ! k)" ..
  qed
  moreover have "children_ge ?n (c @ [x]) (length c) x"
    unfolding children_ge_def
  proof (intro allI impI)
    fix k assume "0 < k \<and> k < ?n \<and> (k - 1) div 2 = length c"
    then have False using parent_less [of k] by simp
    then show "freq x \<le> freq ((c @ [x]) ! k)" ..
  qed
  ultimately have "heap_upto ?n (push_heap_aux (c @ [x]) (length c) 0 x)"
    by (rule sift_up_heap) simp_all
  then show ?thesis by (simp add: is_heap_def pq_push_def)
qed

lemma sift_down_step:
  assumes ok: "hole_ok len xs h" and h: "h < (len - 1) div 2" "len \<le> length xs"
  defines "sc \<equiv> 2 * (h + 1)"
  defines "c \<equiv> (if greater_frequency (xs ! sc) (xs ! (sc - 1)) then sc - 1 else sc)"
  shows "hole_ok len (xs[h := xs ! c]) c"
proof -
  have b: "sc < len" "h < sc - 1" "sc - 1 = 2 * h + 1" "sc = 2 * h + 2"
    using h(1) by (auto simp: sc_def)
  have c: "c = sc - 1 \<or> c = sc" "h < c" "c < len" "(c - 1) div 2 = h" "0 < c"
    using b by (auto simp: c_def)
  have hl: "h < length xs" using b h by simp
  have nth: "xs[h := xs ! c] ! i = (if i = h then xs ! c else xs ! i)" for i
    using hl by (simp add: nth_list_update)
  have least: "freq (xs ! c) \<le> freq (xs ! k)" if "0 < k" "(k - 1) div 2 = h" for k
  proof -
    have "k = 2 * h + 1 \<or> k = 2 * h + 2" using that by arith
    then have "k = sc - 1 \<or> k = sc" using b(3,4) by simp
    then show ?thesis
      by (auto simp: c_def greater_frequency_def not_less intro: less_imp_le)
  qed
  show ?thesis
  proof (rule hole_okI)
    fix i assume i: "0 < i" "i < len" "i \<noteq> c" "(i - 1) div 2 \<noteq> c"
    show "freq (xs[h := xs ! c] ! ((i - 1) div 2)) \<le> freq (xs[h := xs ! c] ! i)"
    proof (cases "i = h")
      case True
      then have h0: "0 < h" using i(1) by simp
      have "(h - 1) div 2 \<noteq> h" using parent_less [OF h0] by simp
      then show ?thesis
        using hole_okD2 [OF ok h0 c(5) c(3) c(4)] True by (simp add: nth)
    next
      case ne: False
      show ?thesis
      proof (cases "(i - 1) div 2 = h")
        case True
        then show ?thesis using least [OF i(1) True] ne by (simp add: nth)
      next
        case False
        then show ?thesis using hole_okD1 [OF ok i(1,2) ne False] ne by (simp add: nth)
      qed
    qed
  next
    fix k assume k: "0 < c" "0 < k" "k < len" "(k - 1) div 2 = c"
    have "c < k" using parent_less [OF k(2)] k(4) by simp
    then have kh: "k \<noteq> h" using c(2) by simp
    have "(k - 1) div 2 \<noteq> h" using k(4) c(2) by simp
    from hole_okD1 [OF ok k(2,3) kh this]
    show "freq (xs[h := xs ! c] ! ((c - 1) div 2)) \<le> freq (xs[h := xs ! c] ! k)"
      using kh c(4) k(4) by (simp add: nth)
  qed
qed

lemma sift_down_loop:
  assumes "adjust_heap_loop xs h s len = (xs', h', s')" "s = h" "hole_ok len xs h"
          "len \<le> length xs"
  shows "hole_ok len xs' h' \<and> \<not> h' < (len - 1) div 2"
  using assms
proof (induction xs h s len arbitrary: xs' h' s' rule: adjust_heap_loop.induct)
  case (1 first holeIndex secondChild len)
  show ?case
  proof (cases "secondChild < (len - 1) div 2")
    case True
    let ?sc = "2 * (secondChild + 1)"
    let ?c = "if greater_frequency (first ! ?sc) (first ! (?sc - 1)) then ?sc - 1 else ?sc"
    have "adjust_heap_loop first holeIndex secondChild len
          = adjust_heap_loop (first[holeIndex := first ! ?c]) ?c ?c len"
      using True by (subst adjust_heap_loop.simps) (simp add: Let_def)
    then have eq: "adjust_heap_loop (first[holeIndex := first ! ?c]) ?c ?c len = (xs', h', s')"
      using "1.prems"(1) by simp
    have sh: "secondChild = holeIndex" by (rule "1.prems"(2))
    have hlt: "holeIndex < (len - 1) div 2" using True sh by simp
    have ok: "hole_ok len (first[holeIndex := first ! ?c]) ?c"
      unfolding sh by (rule sift_down_step [OF "1.prems"(3) hlt "1.prems"(4)])
    have le: "len \<le> length (first[holeIndex := first ! ?c])" using "1.prems"(4) by simp
    show ?thesis
      using "1.IH" [OF True refl refl eq refl ok le] .
  next
    case False
    have "adjust_heap_loop first holeIndex secondChild len = (first, holeIndex, secondChild)"
      using False by (subst adjust_heap_loop.simps) simp
    then show ?thesis
      using "1.prems" False by auto
  qed
qed

lemma adjust_heap_heap:
  assumes ok: "hole_ok len xs 0" and len: "0 < len" "len \<le> length xs"
  shows "heap_upto len (adjust_heap xs 0 len v)"
proof -
  obtain xs' h' s' where l: "adjust_heap_loop xs 0 0 len = (xs', h', s')"
    by (cases "adjust_heap_loop xs 0 0 len") auto
  note p = adjust_heap_loop_props [OF l refl len(2,1), of v]
  note q = sift_down_loop [OF l refl ok len(2)]
  have hok: "hole_ok len xs' h'" and bottom: "\<not> h' < (len - 1) div 2" using q by auto
  have s': "s' = h'" and h': "h' < len" and lx: "len \<le> length xs'" using p len by auto
  show ?thesis
  proof (cases "len mod 2 = 0 \<and> s' = (len - 2) div 2")
    case True
    define c where "c = 2 * (s' + 1) - 1"
    have c: "c = len - 1" "c < len" "h' < c" "(c - 1) div 2 = h'" "0 < c" "len \<le> 2 * c + 1"
      using True s' len(1) by (auto simp: c_def)
    have res: "adjust_heap xs 0 len v = push_heap_aux (xs'[h' := xs' ! c]) c 0 v"
      using True by (simp add: adjust_heap_def l Let_def c_def)
    have nth: "xs'[h' := xs' ! c] ! i = (if i = h' then xs' ! c else xs' ! i)" for i
      using h' lx by (simp add: nth_list_update)
    have "hole_ok len (xs'[h' := xs' ! c]) c"
    proof (rule hole_okI)
      fix i assume i: "0 < i" "i < len" "i \<noteq> c" "(i - 1) div 2 \<noteq> c"
      show "freq (xs'[h' := xs' ! c] ! ((i - 1) div 2)) \<le> freq (xs'[h' := xs' ! c] ! i)"
      proof (cases "i = h'")
        case True
        then have h0: "0 < h'" using i(1) by simp
        have "(h' - 1) div 2 \<noteq> h'" using parent_less [OF h0] by simp
        then show ?thesis
          using hole_okD2 [OF hok h0 c(5) c(2) c(4)] True by (simp add: nth)
      next
        case ne: False
        have "(i - 1) div 2 \<noteq> h'"
        proof
          assume "(i - 1) div 2 = h'"
          then have "i = 2 * h' + 1 \<or> i = 2 * h' + 2" using i(1) by arith
          moreover have "2 * h' + 1 = c" using True s' len(1) by (auto simp: c_def)
          ultimately show False using i(2,3) c(1) by arith
        qed
        then show ?thesis using hole_okD1 [OF hok i(1,2) ne] ne by (simp add: nth)
      qed
    next
      fix k assume k: "0 < c" "0 < k" "k < len" "(k - 1) div 2 = c"
      then have "2 * c + 1 \<le> k" by arith
      then have False using c(6) k(3) by simp
      then show "freq (xs'[h' := xs' ! c] ! ((c - 1) div 2)) \<le> freq (xs'[h' := xs' ! c] ! k)" ..
    qed
    moreover have "children_ge len (xs'[h' := xs' ! c]) c v"
      unfolding children_ge_def
    proof (intro allI impI)
      fix k assume k: "0 < k \<and> k < len \<and> (k - 1) div 2 = c"
      then have "2 * c + 1 \<le> k" by arith
      then have False using c(6) k by simp
      then show "freq v \<le> freq (xs'[h' := xs' ! c] ! k)" ..
    qed
    ultimately show ?thesis
      unfolding res using c(2) lx by (intro sift_up_heap) simp_all
  next
    case False
    then have res: "adjust_heap xs 0 len v = push_heap_aux xs' h' 0 v"
      by (auto simp add: adjust_heap_def l Let_def)
    have nochild: "len \<le> 2 * h' + 1" using bottom False s' by arith
    have "children_ge len xs' h' v"
      unfolding children_ge_def
    proof (intro allI impI)
      fix k assume k: "0 < k \<and> k < len \<and> (k - 1) div 2 = h'"
      then have "2 * h' + 1 \<le> k" by arith
      then have False using nochild k by simp
      then show "freq v \<le> freq (xs' ! k)" ..
    qed
    then show ?thesis
      unfolding res using hok h' lx by (intro sift_up_heap) simp_all
  qed
qed

lemma is_heap_pq_pop:
  assumes "is_heap c"
  shows "is_heap (pq_pop c)"
proof (cases "length c > 1")
  case True
  define n where "n = length c - 1"
  define xs where "xs = c[n := c ! 0]"
  define ys where "ys = adjust_heap xs 0 n (c ! n)"
  have n: "0 < n" "n < length c" "length xs = Suc n" using True by (auto simp: n_def xs_def)
  have nth: "xs ! i = c ! i" if "i < n" for i using that by (simp add: xs_def)
  have "hole_ok n xs 0"
  proof (rule hole_okI)
    fix i assume i: "0 < i" "i < n" "i \<noteq> 0" "(i - 1) div 2 \<noteq> 0"
    have pl: "(i - 1) div 2 < n" using parent_less [OF i(1)] i(2) by simp
    have il: "i < length c" using i(2) n(2) by simp
    have e: "xs ! i = c ! i" "xs ! ((i - 1) div 2) = c ! ((i - 1) div 2)"
      by (rule nth [OF i(2)], rule nth [OF pl])
    show "freq (xs ! ((i - 1) div 2)) \<le> freq (xs ! i)"
      unfolding e by (rule heap_uptoD [OF assms [unfolded is_heap_def] i(1) il])
  next
    fix k :: nat assume "(0::nat) < 0"
    then show "freq (xs ! ((0 - 1) div 2)) \<le> freq (xs ! k)" by simp
  qed
  then have h: "heap_upto n ys"
    unfolding ys_def using n by (intro adjust_heap_heap) simp_all
  have len: "length ys = Suc n" by (simp add: ys_def n)
  have pop: "pq_pop c = butlast ys"
    using True by (simp add: pq_pop_def ys_def xs_def n_def)
  have "heap_upto n (butlast ys)"
  proof (rule heap_uptoI)
    fix i assume i: "0 < i" "i < n"
    have pl: "(i - 1) div 2 < n" using parent_less [OF i(1)] i(2) by simp
    have e: "butlast ys ! i = ys ! i" "butlast ys ! ((i - 1) div 2) = ys ! ((i - 1) div 2)"
      using i(2) pl len by (simp_all add: nth_butlast)
    show "freq (butlast ys ! ((i - 1) div 2)) \<le> freq (butlast ys ! i)"
      unfolding e by (rule heap_uptoD [OF h i])
  qed
  then show ?thesis by (simp add: is_heap_def pop len)
next
  case False
  then have "length (pq_pop c) \<le> 0" by simp
  then show ?thesis by (simp add: is_heap_def heap_upto_def)
qed

lemma heap_top_least:
  assumes "is_heap c" "i < length c"
  shows "freq (c ! 0) \<le> freq (c ! i)"
  using assms(2)
proof (induction i rule: less_induct)
  case (less i)
  show ?case
  proof (cases "i = 0")
    case True
    then show ?thesis by simp
  next
    case False
    then have i: "0 < i" by simp
    have pl: "(i - 1) div 2 < i" using i by (rule parent_less)
    have "freq (c ! 0) \<le> freq (c ! ((i - 1) div 2))"
      using less.IH [OF pl] pl less.prems by simp
    also have "\<dots> \<le> freq (c ! i)"
      by (rule heap_uptoD [OF assms(1) [unfolded is_heap_def] i less.prems])
    finally show ?thesis .
  qed
qed

lemma heap_hd_least:
  assumes "is_heap c" "x \<in> set c"
  shows "freq (hd c) \<le> freq x"
proof -
  obtain i where "i < length c" "x = c ! i" using assms(2) by (auto simp: in_set_conv_nth)
  moreover have "hd c = c ! 0" using assms(2) by (cases c) auto
  ultimately show ?thesis using heap_top_least [OF assms(1)] by simp
qed

lemma is_heap_push_leaves: "is_heap (push_leaves frequencies)"
proof -
  have "is_heap c \<Longrightarrow> is_heap (fold (\<lambda>(b, f) nodeHeap. pq_push (new_leaf b f) nodeHeap) fr c)" for fr c
    by (induction fr arbitrary: c) (auto simp: is_heap_pq_push)
  moreover have "is_heap []" by (simp add: is_heap_def heap_upto_def)
  ultimately show ?thesis by (simp add: push_leaves_def)
qed

lemma mset_push_leaves:
  "mset (push_leaves frequencies) = mset (map (\<lambda>(b, f). new_leaf b f) frequencies)"
proof -
  have "mset (fold (\<lambda>(b, f) nodeHeap. pq_push (new_leaf b f) nodeHeap) fr c)
        = mset (map (\<lambda>(b, f). new_leaf b f) fr) + mset c" for fr c
    by (induction fr arbitrary: c) (auto simp: mset_pq_push)
  then show ?thesis by (simp add: push_leaves_def)
qed

lemma merge_step_order:
  assumes "is_heap nodeHeap" "1 < length nodeHeap"
  defines "l \<equiv> hd nodeHeap"
  defines "r \<equiv> hd (pq_pop nodeHeap)"
  defines "rest \<equiv> pq_pop (pq_pop nodeHeap)"
  shows "mset nodeHeap = add_mset l (add_mset r (mset rest))"
    and "\<forall>x \<in> set nodeHeap. freq l \<le> freq x"
    and "\<forall>x \<in> set rest. freq r \<le> freq x"
    and "merge_step nodeHeap = pq_push (HuffmanNode NULL_CHAR (freq l + freq r) l r) rest"
    and "mset (merge_step nodeHeap)
           = add_mset (HuffmanNode NULL_CHAR (freq l + freq r) l r) (mset rest)"
    and "is_heap (merge_step nodeHeap)"
    and "merge_loop nodeHeap = merge_loop (merge_step nodeHeap)"
proof -
  define h1 where "h1 = pq_pop nodeHeap"
  have "length h1 = length nodeHeap - 1" by (simp add: h1_def)
  then have ne: "nodeHeap \<noteq> []" "h1 \<noteq> []" using assms(2) by auto
  have m1: "add_mset l (mset h1) = mset nodeHeap"
    unfolding l_def h1_def by (rule mset_pq_pop [OF ne(1)])
  have m2: "add_mset r (mset rest) = mset h1"
    unfolding r_def rest_def h1_def [symmetric] by (rule mset_pq_pop [OF ne(2)])
  show "mset nodeHeap = add_mset l (add_mset r (mset rest))"
    using m1 m2 by simp
  show "\<forall>x \<in> set nodeHeap. freq l \<le> freq x"
    unfolding l_def using heap_hd_least [OF assms(1)] by blast
  have hp1: "is_heap h1" unfolding h1_def by (rule is_heap_pq_pop [OF assms(1)])
  have "set rest \<subseteq> set h1" using m2 by (metis set_mset_mset subset_iff insert_iff set_mset_add_mset_insert)
  then show "\<forall>x \<in> set rest. freq r \<le> freq x"
    unfolding r_def h1_def [symmetric] using heap_hd_least [OF hp1] by blast
  show ms: "merge_step nodeHeap = pq_push (HuffmanNode NULL_CHAR (freq l + freq r) l r) rest"
    by (simp add: merge_step_def Let_def l_def r_def rest_def new_internal_def)
  show "mset (merge_step nodeHeap)
           = add_mset (HuffmanNode NULL_CHAR (freq l + freq r) l r) (mset rest)"
    unfolding ms by (rule mset_pq_push)
  have "is_heap rest" unfolding rest_def h1_def [symmetric] by (rule is_heap_pq_pop [OF hp1])
  then show "is_heap (merge_step nodeHeap)"
    unfolding ms by (rule is_heap_pq_push)
  show "merge_loop nodeHeap = merge_loop (merge_step nodeHeap)"
    using assms(2) by (subst merge_loop.simps) simp
qed

section \<open>How far the decoder gets\<close>

text \<open>
  \<^verbatim>\<open>decode\<close> on the code of a byte reads the bits of the code and appends the byte.
  The loop of \<^verbatim>\<open>decompress\<close> decodes one code after the other while at least two
  bits are left, so on the codes of a sequence of bytes it returns the sequence, without
  its last byte when the code of that byte has a single bit. After \<^verbatim>\<open>compress\<close>,
  \<^verbatim>\<open>decompress\<close> therefore returns the data exactly when the data has two distinct
  bytes at least and the code of its last byte has more than one bit.
\<close>

lemma string_at_mid: "string_at (pre @ x # post) (int (length pre)) = Inr x"
  by (simp add: string_at_def)

lemma decode_code:
  assumes "is_leaf (branch t c)" "byte (branch t c) = b" "index + 1 = int (length pre)"
  shows "decode t index (pre @ c @ post) decoded = Inr (index + int (length c), decoded @ [b])"
  using assms
proof (induction c arbitrary: t index pre)
  case Nil
  then show ?case by (cases t) (auto simp: is_leaf_def)
next
  case (Cons x cs)
  from Cons.prems(1) obtain b' f l r where t: "t = HuffmanNode b' f l r"
    by (cases t) (auto simp: is_leaf_def)
  have nl: "\<not> (l = nullptr \<and> r = nullptr)"
    using Cons.prems(1) by (auto simp: t is_leaf_def split: if_splits)
  have sa: "string_at (pre @ (x # cs) @ post) (index + 1) = Inr x"
    using string_at_mid [of pre x "cs @ post"] Cons.prems(3) by simp
  have eq: "pre @ (x # cs) @ post = (pre @ [x]) @ cs @ post" by simp
  have ix: "index + 1 + 1 = int (length (pre @ [x]))" using Cons.prems(3) by simp
  show ?case
  proof (cases "x = LEFT_CHAR")
    case True
    then have "is_leaf (branch l cs)" "byte (branch l cs) = b"
      using Cons.prems(1,2) by (simp_all add: t)
    from Cons.IH [OF this ix] show ?thesis
      using nl sa True unfolding eq [symmetric] by (simp add: t Let_def)
  next
    case False
    then have "is_leaf (branch r cs)" "byte (branch r cs) = b"
      using Cons.prems(1,2) by (auto simp add: t is_leaf_def split: if_splits)
    from Cons.IH [OF this ix] show ?thesis
      using nl sa False unfolding eq [symmetric] by (simp add: t Let_def)
  qed
qed

lemma decompress_loop_codes:
  assumes "\<forall>ch \<in> set rest. is_leaf (branch root (code ch)) \<and> byte (branch root (code ch)) = ch
             \<and> code ch \<noteq> []"
      and "index + 1 = int (length pre)"
  shows "decompress_loop root index (pre @ concat (map code rest)) decoded
         = Some (Inr (decoded @ (if rest \<noteq> [] \<and> length (code (last rest)) = 1
                                 then butlast rest else rest)))"
  using assms
proof (induction rest arbitrary: index pre decoded)
  case Nil
  then show ?case by (subst decompress_loop.simps) simp
next
  case (Cons d ds)
  let ?bits = "pre @ concat (map code (d # ds))"
  have d: "is_leaf (branch root (code d))" "byte (branch root (code d)) = d" "code d \<noteq> []"
    using Cons.prems(1) by auto
  have len: "int (length ?bits) = index + 1 + int (length (code d)) + int (length (concat (map code ds)))"
    using Cons.prems(2) by simp
  show ?case
  proof (cases "index < int (length ?bits) - 2")
    case True
    have dec: "decode root index ?bits decoded = Inr (index + int (length (code d)), decoded @ [d])"
      using decode_code [OF d(1,2) Cons.prems(2), of "concat (map code ds)" decoded] by simp
    have ix: "index + int (length (code d)) + 1 = int (length (pre @ code d))"
      using Cons.prems(2) by simp
    have "decompress_loop root (index + int (length (code d))) ((pre @ code d) @ concat (map code ds))
            (decoded @ [d])
          = Some (Inr ((decoded @ [d]) @ (if ds \<noteq> [] \<and> length (code (last ds)) = 1
                                 then butlast ds else ds)))"
      using Cons.prems(1) by (intro Cons.IH [OF _ ix]) simp
    then have "decompress_loop root index ?bits decoded
          = Some (Inr ((decoded @ [d]) @ (if ds \<noteq> [] \<and> length (code (last ds)) = 1
                                 then butlast ds else ds)))"
      using True dec by (subst decompress_loop.simps) simp
    moreover have "length (code d) \<noteq> 1" if "ds = []"
      using True len that by simp
    ultimately show ?thesis by auto
  next
    case False
    then have small: "length (code d) + length (concat (map code ds)) \<le> 1"
      using len by simp
    have pos: "0 < length (code d)" using d(3) by simp
    have l1: "length (code d) = 1" using small pos by linarith
    have "length (concat (map code ds)) = 0" using small pos by linarith
    then have l0: "concat (map code ds) = []" by (simp only: length_0_conv)
    have "ds = []"
    proof (rule ccontr)
      assume "ds \<noteq> []"
      then obtain e es where "ds = e # es" by (cases ds) auto
      then have "code e \<noteq> []" using Cons.prems(1) by simp
      then show False using l0 \<open>ds = e # es\<close> by simp
    qed
    then show ?thesis
      using False l1 by (subst decompress_loop.simps) simp
  qed
qed

lemma decompress_after_compress:
  assumes args: "compress_arguments data = Inr (original_file_size, encoded, padding, frequencies)"
      and root: "build_huffman_tree (count_frequencies data) = Inr root"
  shows "decompress (encoded @ replicate (unat padding) PADDING_BIT) padding frequencies
         = Some (Inr (if length frequencies = 1 then []
                      else if length (code_of (create_substitution_table root [] []) (last data)) = 1
                           then butlast data
                      else data, encoded))"
proof -
  let ?tab = "create_substitution_table root [] []"
  let ?code = "code_of ?tab"
  have ne: "data \<noteq> []"
    using root by (auto simp: count_frequencies_def build_huffman_tree_empty)
  from compress_arguments_nonempty [OF ne] root args
  have lv: "set_mset (leaves root) = set data"
    and enc: "encoded = concat (map ?code data)"
    and fr: "frequencies = count_frequencies data"
    by auto
  have frne: "frequencies \<noteq> []" using root fr by (auto simp: build_huffman_tree_empty)
  from code_table_of_built_tree [OF frne] root fr
  have tab: "\<forall>(b, c) \<in> set ?tab. is_leaf (branch root c) \<and> byte (branch root c) = b
               \<and> (c = [] \<longleftrightarrow> length frequencies = 1)"
    by auto
  have entry: "(ch, ?code ch) \<in> set ?tab" if "ch \<in> set data" for ch
    using that lv by (intro code_of_entry) (simp_all add: table_of_tree)
  have er: "erase_from (encoded @ replicate (unat padding) PADDING_BIT) padding = Inr encoded"
    by (simp add: erase_from_def)
  have loop: "decompress_loop root (- 1) encoded []
              = Some (Inr (if length frequencies = 1 then []
                      else if length (?code (last data)) = 1 then butlast data else data))"
  proof (cases "length frequencies = 1")
    case True
    have "?code ch = []" if "ch \<in> set data" for ch
      using entry [OF that] tab True by auto
    then have "encoded = []" by (simp add: enc)
    then show ?thesis using True by (subst decompress_loop.simps) simp
  next
    case False
    have "\<forall>ch \<in> set data. is_leaf (branch root (?code ch)) \<and> byte (branch root (?code ch)) = ch
             \<and> ?code ch \<noteq> []"
      using entry tab False by fastforce
    from decompress_loop_codes [OF this, of "- 1" "[]" "[]"]
    show ?thesis using False ne by (simp add: enc)
  qed
  show ?thesis
    using root by (simp add: decompress_def fr [symmetric] er loop)
qed

section \<open>The length of the container\<close>

lemma length_low_bytes [simp]: "length (low_bytes n v) = n"
  by (induction n arbitrary: v) auto

lemma length_object_bytes [simp]: "length (object_bytes p n v) = n"
  by (simp add: object_bytes_def split: byte_order.splits)

lemma length_table_bytes:
  "length (concat (map (\<lambda>(b, f). b # object_bytes p 4 (unat f)) frequencies)) = 5 * length frequencies"
  by (induction frequencies) auto

lemma container_layout:
  assumes "write_compressed_file p original_file_size compressed_data padding frequencies
             = Inr (container, compressed_data')"
      and "8 dvd length compressed_data'"
  shows "length container
         = 4 + sizeof_size_t p + 4 + sizeof_size_t p + 5 * length frequencies
           + length compressed_data' div 8"
proof -
  from assms(1) obtain packed where
    p: "write_packed compressed_data' = Inr packed"
    and c: "container = (object_bytes p 4 (unat original_file_size)
                 @ object_bytes p (sizeof_size_t p) (length compressed_data' div CHAR_BIT)
                 @ object_bytes p 4 (unat padding)
                 @ object_bytes p (sizeof_size_t p) (length frequencies))
               @ concat (map (\<lambda>(b, f). b # object_bytes p 4 (unat f)) frequencies) @ packed"
    by (auto simp: write_compressed_file_def Let_def split: sum.splits)
  have "length packed * 8 = length compressed_data'"
    using write_packed_length [OF p assms(2)] .
  then have "length packed = length compressed_data' div 8" by simp
  then show ?thesis
    by (simp add: c length_table_bytes)
qed

section \<open>Claims\<close>

text \<open>
  C1. The round trip \<open>decompress (compress b) = b\<close> fails on the two bytes \<open>0x41 0x42\<close>:
  each has a code of one bit, the stream is \<open>01\<close> with six bits of padding, and the loop of
  \<^verbatim>\<open>decompress\<close> runs while \<^verbatim>\<open>index < size - 2\<close>, so it stops when one bit is
  left and the last byte is lost. The same holds through the file, on a platform whose
  \<^verbatim>\<open>size_t\<close> has four bytes. The single byte \<open>0x41\<close> has the empty code and
  decompresses to nothing.
\<close>

theorem round_trip_fails:
  "compress_arguments [0x41, 0x42] = Inr (2, ''01'', 6, [(0x41, 1), (0x42, 1)])
   \<and> decompress (''01'' @ replicate 6 PADDING_BIT) 6 [(0x41, 1), (0x42, 1)] = Some (Inr ([0x41], ''01''))
   \<and> compress ilp32 [0x41, 0x42]
       = Inr ([2, 0, 0, 0, 1, 0, 0, 0, 6, 0, 0, 0, 2, 0, 0, 0, 0x41, 1, 0, 0, 0, 0x42, 1, 0, 0, 0, 0x40], 1)
   \<and> decompress_to_file ilp32
        [2, 0, 0, 0, 1, 0, 0, 0, 6, 0, 0, 0, 2, 0, 0, 0, 0x41, 1, 0, 0, 0, 0x42, 1, 0, 0, 0, 0x40]
       = Some (Inr [0x41])
   \<and> compress_arguments [0x41] = Inr (1, [], 8, [(0x41, 1)])
   \<and> decompress (replicate 8 PADDING_BIT) 8 [(0x41, 1)] = Some (Inr ([], []))"
  by code_simp

text \<open>
  C2. Where \<^verbatim>\<open>size_t\<close> has eight bytes, the fields \<open>data_size\<close> and
  \<open>frequencies_size\<close> of the container are written with eight bytes each, since
  \<^verbatim>\<open>auto\<close> gives both variables the type \<^verbatim>\<open>size_t\<close>: the header has 24 bytes,
  not 16. \<^verbatim>\<open>read_compressed_file\<close> reads four bytes for every field, takes the upper
  half of \<open>data_size\<close> for the padding and the padding for the number of entries, and runs
  off the end of the file.
\<close>

theorem size_t_fields_are_eight_bytes:
  "compress lp64 [0x41, 0x42]
     = Inr ([2, 0, 0, 0] @ [1, 0, 0, 0, 0, 0, 0, 0] @ [6, 0, 0, 0] @ [2, 0, 0, 0, 0, 0, 0, 0]
            @ [0x41, 1, 0, 0, 0, 0x42, 1, 0, 0, 0] @ [0x40], 1)
   \<and> read_compressed_file lp64
        ([2, 0, 0, 0] @ [1, 0, 0, 0, 0, 0, 0, 0] @ [6, 0, 0, 0] @ [2, 0, 0, 0, 0, 0, 0, 0]
            @ [0x41, 1, 0, 0, 0, 0x42, 1, 0, 0, 0] @ [0x40])
     = Inl Undefined_behaviour"
  by code_simp

text \<open>
  C3. For the input \<open>AAAABBBB\<close> the table has two entries with codes of one bit, but the
  round trip returns seven bytes: the loop of \<^verbatim>\<open>decompress\<close> stops with one
  meaningful bit unread.
\<close>

theorem two_symbol_alphabet:
  "build_huffman_tree (count_frequencies [0x41, 0x41, 0x41, 0x41, 0x42, 0x42, 0x42, 0x42])
     = Inr (HuffmanNode 0 8 (HuffmanNode 0x41 4 nullptr nullptr) (HuffmanNode 0x42 4 nullptr nullptr))
   \<and> create_substitution_table
        (HuffmanNode 0 8 (HuffmanNode 0x41 4 nullptr nullptr) (HuffmanNode 0x42 4 nullptr nullptr)) [] []
     = [(0x41, ''0''), (0x42, ''1'')]
   \<and> compress_arguments [0x41, 0x41, 0x41, 0x41, 0x42, 0x42, 0x42, 0x42]
     = Inr (8, ''00001111'', 8, [(0x41, 4), (0x42, 4)])
   \<and> decompress (''00001111'' @ replicate 8 PADDING_BIT) 8 [(0x41, 4), (0x42, 4)]
     = Some (Inr ([0x41, 0x41, 0x41, 0x41, 0x42, 0x42, 0x42], ''00001111''))
   \<and> compress ilp32 [0x41, 0x41, 0x41, 0x41, 0x42, 0x42, 0x42, 0x42]
     = Inr ([8, 0, 0, 0, 2, 0, 0, 0, 8, 0, 0, 0, 2, 0, 0, 0, 0x41, 4, 0, 0, 0, 0x42, 4, 0, 0, 0, 0x0F, 0], 2)
   \<and> decompress_to_file ilp32
        [8, 0, 0, 0, 2, 0, 0, 0, 8, 0, 0, 0, 2, 0, 0, 0, 0x41, 4, 0, 0, 0, 0x42, 4, 0, 0, 0, 0x0F, 0]
     = Some (Inr [0x41, 0x41, 0x41, 0x41, 0x42, 0x42, 0x42])"
  by code_simp




text \<open>
  C5, as amended. On a container of fewer than 16 bytes \<^verbatim>\<open>decompress_to_file\<close> has
  undefined behaviour: the reads of the header fail unnoticed and the guard of the loop
  over the frequency table reads \<open>frequencies_size\<close> uninitialised.
\<close>

theorem short_container_undefined:
  "length file < 16 \<Longrightarrow> decompress_to_file p file = Some (Inl Undefined_behaviour)"
  by (simp add: decompress_to_file_def read_compressed_file_short)

theorem short_container_undefined_witness:
  "length [2, 0, 0, 0, 1, 0, 0, 0, 6, 0, 0, 0, 2, 0, 0 :: Byte] < 16
   \<and> decompress_to_file ilp32 [2, 0, 0, 0, 1, 0, 0, 0, 6, 0, 0, 0, 2, 0, 0]
       = Some (Inl Undefined_behaviour)"
  using short_container_undefined [of "[2, 0, 0, 0, 1, 0, 0, 0, 6, 0, 0, 0, 2, 0, 0]" ilp32]
  by simp

text \<open>
  The claim C5 as stated fails: on a container of seven bytes the outcome is undefined
  behaviour, not an exception of any type.
\<close>

theorem short_container_no_typed_error:
  "read_compressed_file ilp32 [2, 0, 0, 0, 1, 0, 0] = Inl Undefined_behaviour
   \<and> decompress_to_file ilp32 [2, 0, 0, 0, 1, 0, 0] = Some (Inl Undefined_behaviour)"
  by code_simp

text \<open>
  C6. For every input that is not empty, \<^verbatim>\<open>compress\<close> returns, the padding is
  \<open>8 - length encoded mod 8\<close> and so lies in \<open>1..8\<close>, the padded string has a length that
  is a multiple of 8, and eight times the packed size is the sum of the lengths of the
  codes of the input bytes plus the padding. The sum \<open>encodedSize\<close> is computed in 32 bits
  from the table and the frequencies; it agrees with the length of the encoded string
  modulo 8 also when it wraps.
\<close>

theorem size_accounting:
  assumes "data \<noteq> []"
  shows "\<exists>root original_file_size encoded padding frequencies file encoded'.
       build_huffman_tree (count_frequencies data) = Inr root
     \<and> compress_arguments data = Inr (original_file_size, encoded, padding, frequencies)
     \<and> write_compressed_file p original_file_size encoded padding frequencies = Inr (file, encoded')
     \<and> compress p data = Inr (file, of_nat (length encoded' div CHAR_BIT))
     \<and> unat padding = 8 - length encoded mod 8
     \<and> 0 < padding \<and> padding \<le> 8
     \<and> encoded' = encoded @ replicate (unat padding) PADDING_BIT
     \<and> length encoded' mod 8 = 0
     \<and> (length encoded' div CHAR_BIT) * 8
         = (\<Sum>ch\<leftarrow>data. length (code_of (create_substitution_table root [] []) ch)) + unat padding"
  using assms by (rule compress_nonempty)

theorem size_accounting_witness:
  "[0x41, 0x42, 0x43, 0x42, 0x43] \<noteq> ([] :: Byte list)
   \<and> (\<exists>root original_file_size encoded padding frequencies file encoded'.
       build_huffman_tree (count_frequencies [0x41, 0x42, 0x43, 0x42, 0x43]) = Inr root
     \<and> compress_arguments [0x41, 0x42, 0x43, 0x42, 0x43]
          = Inr (original_file_size, encoded, padding, frequencies)
     \<and> write_compressed_file ilp32 original_file_size encoded padding frequencies = Inr (file, encoded')
     \<and> compress ilp32 [0x41, 0x42, 0x43, 0x42, 0x43] = Inr (file, of_nat (length encoded' div CHAR_BIT))
     \<and> unat padding = 8 - length encoded mod 8
     \<and> 0 < padding \<and> padding \<le> 8
     \<and> encoded' = encoded @ replicate (unat padding) PADDING_BIT
     \<and> length encoded' mod 8 = 0
     \<and> (length encoded' div CHAR_BIT) * 8
         = (\<Sum>ch\<leftarrow>[0x41, 0x42, 0x43, 0x42, 0x43]. length (code_of (create_substitution_table root [] []) ch)) + unat padding)"
proof -
  have h: "[0x41, 0x42, 0x43, 0x42, 0x43] \<noteq> ([] :: Byte list)" by simp
  from h size_accounting [OF h, of ilp32] show ?thesis by (rule conjI)
qed

text \<open>
  C7, as amended. The frequency table is iterated in ascending byte order and one leaf is
  pushed per entry. The queue is a binary heap on the frequency alone: in every round of
  the loop the first extracted node has the least frequency in the queue and the second
  the least frequency of the rest, the first becomes the left and the second the right
  child of the node that is pushed, and the queue is a heap again. Among nodes of equal
  frequency the order of extraction is the one of the heap, not the order of insertion.
\<close>

theorem heap_extraction_order:
  "sorted_wrt (<) (map fst (count_frequencies data))
   \<and> is_heap (push_leaves frequencies)
   \<and> mset (push_leaves frequencies) = mset (map (\<lambda>(b, f). new_leaf b f) frequencies)
   \<and> (is_heap nodeHeap \<and> 1 < length nodeHeap \<longrightarrow>
        (let l = hd nodeHeap; r = hd (pq_pop nodeHeap); rest = pq_pop (pq_pop nodeHeap) in
           mset nodeHeap = add_mset l (add_mset r (mset rest))
         \<and> (\<forall>x \<in> set nodeHeap. freq l \<le> freq x)
         \<and> (\<forall>x \<in> set rest. freq r \<le> freq x)
         \<and> merge_step nodeHeap = pq_push (HuffmanNode NULL_CHAR (freq l + freq r) l r) rest
         \<and> mset (merge_step nodeHeap)
             = add_mset (HuffmanNode NULL_CHAR (freq l + freq r) l r) (mset rest)
         \<and> is_heap (merge_step nodeHeap)
         \<and> merge_loop nodeHeap = merge_loop (merge_step nodeHeap)))"
proof -
  have step: "is_heap nodeHeap \<and> 1 < length nodeHeap \<longrightarrow>
        (let l = hd nodeHeap; r = hd (pq_pop nodeHeap); rest = pq_pop (pq_pop nodeHeap) in
           mset nodeHeap = add_mset l (add_mset r (mset rest))
         \<and> (\<forall>x \<in> set nodeHeap. freq l \<le> freq x)
         \<and> (\<forall>x \<in> set rest. freq r \<le> freq x)
         \<and> merge_step nodeHeap = pq_push (HuffmanNode NULL_CHAR (freq l + freq r) l r) rest
         \<and> mset (merge_step nodeHeap)
             = add_mset (HuffmanNode NULL_CHAR (freq l + freq r) l r) (mset rest)
         \<and> is_heap (merge_step nodeHeap)
         \<and> merge_loop nodeHeap = merge_loop (merge_step nodeHeap))"
  proof (intro impI, elim conjE)
    assume h: "is_heap nodeHeap" "1 < length nodeHeap"
    note m = merge_step_order [OF h]
    show "let l = hd nodeHeap; r = hd (pq_pop nodeHeap); rest = pq_pop (pq_pop nodeHeap) in
           mset nodeHeap = add_mset l (add_mset r (mset rest))
         \<and> (\<forall>x \<in> set nodeHeap. freq l \<le> freq x)
         \<and> (\<forall>x \<in> set rest. freq r \<le> freq x)
         \<and> merge_step nodeHeap = pq_push (HuffmanNode NULL_CHAR (freq l + freq r) l r) rest
         \<and> mset (merge_step nodeHeap)
             = add_mset (HuffmanNode NULL_CHAR (freq l + freq r) l r) (mset rest)
         \<and> is_heap (merge_step nodeHeap)
         \<and> merge_loop nodeHeap = merge_loop (merge_step nodeHeap)"
      unfolding Let_def
      by (intro conjI, rule m(1), rule m(2), rule m(3), rule m(4), rule m(5), rule m(6), rule m(7))
  qed
  show ?thesis
    by (intro conjI, rule count_frequencies_sorted, rule is_heap_push_leaves,
        rule mset_push_leaves, rule step)
qed

theorem heap_extraction_order_witness:
  "is_heap [new_leaf 1 1, new_leaf 2 1, new_leaf 3 1, new_leaf 4 1]
   \<and> 1 < length [new_leaf 1 1, new_leaf 2 1, new_leaf 3 1, new_leaf 4 1]
   \<and> hd [new_leaf 1 1, new_leaf 2 1, new_leaf 3 1, new_leaf 4 1] = new_leaf 1 1
   \<and> hd (pq_pop [new_leaf 1 1, new_leaf 2 1, new_leaf 3 1, new_leaf 4 1]) = new_leaf 3 1
   \<and> is_heap (merge_step [new_leaf 1 1, new_leaf 2 1, new_leaf 3 1, new_leaf 4 1])
   \<and> mset (merge_step [new_leaf 1 1, new_leaf 2 1, new_leaf 3 1, new_leaf 4 1])
       = add_mset (HuffmanNode NULL_CHAR 2 (new_leaf 1 1) (new_leaf 3 1))
           (mset (pq_pop (pq_pop [new_leaf 1 1, new_leaf 2 1, new_leaf 3 1, new_leaf 4 1])))"
proof -
  let ?h = "[new_leaf 1 1, new_leaf 2 1, new_leaf 3 1, new_leaf 4 1]"
  have h: "is_heap ?h \<and> 1 < length ?h" by code_simp
  have t: "hd ?h = new_leaf 1 1" "hd (pq_pop ?h) = new_leaf 3 1"
          "freq (new_leaf 1 1) + freq (new_leaf 3 1) = 2"
    by code_simp+
  from heap_extraction_order [of "[]" "[]" ?h] h
  have "is_heap (merge_step ?h)"
    and "mset (merge_step ?h)
       = add_mset (HuffmanNode NULL_CHAR (freq (hd ?h) + freq (hd (pq_pop ?h))) (hd ?h) (hd (pq_pop ?h)))
           (mset (pq_pop (pq_pop ?h)))"
    unfolding Let_def by blast+
  then show ?thesis using h unfolding t by simp
qed

text \<open>
  The claim C7 as stated fails: with four leaves of frequency 1 pushed in the order of the
  bytes 1, 2, 3, 4, the second node extracted is the leaf of byte 3, while the leaf of
  byte 2 was inserted before it and is still in the queue; a stable order extracts the
  leaf of byte 2. The tree pairs byte 1 with byte 3.
\<close>

theorem extraction_not_stable:
  "push_leaves [(1, 1), (2, 1), (3, 1), (4, 1)]
     = [new_leaf 1 1, new_leaf 2 1, new_leaf 3 1, new_leaf 4 1]
   \<and> hd (push_leaves [(1, 1), (2, 1), (3, 1), (4, 1)]) = new_leaf 1 1
   \<and> hd (pq_pop (push_leaves [(1, 1), (2, 1), (3, 1), (4, 1)])) = new_leaf 3 1
   \<and> spec_stable_top [new_leaf 1 1, new_leaf 2 1, new_leaf 3 1, new_leaf 4 1] = new_leaf 1 1
   \<and> spec_stable_top (spec_stable_pop [new_leaf 1 1, new_leaf 2 1, new_leaf 3 1, new_leaf 4 1])
       = new_leaf 2 1
   \<and> build_huffman_tree [(1, 1), (2, 1), (3, 1), (4, 1)]
       = Inr (HuffmanNode 0 4
               (HuffmanNode 0 2 (HuffmanNode 1 1 nullptr nullptr) (HuffmanNode 3 1 nullptr nullptr))
               (HuffmanNode 0 2 (HuffmanNode 2 1 nullptr nullptr) (HuffmanNode 4 1 nullptr nullptr)))"
  by code_simp

text \<open>
  C8. In the table that \<^verbatim>\<open>create_substitution_table\<close> generates from any tree, no code
  is a prefix of the code of another entry: every code is the path to a leaf, and the
  entries of two bytes are the paths to two leaves.
\<close>

theorem prefix_free:
  assumes "(b1, c1) \<in> set (create_substitution_table root [] [])"
      and "(b2, c2) \<in> set (create_substitution_table root [] [])"
      and "(b1, c1) \<noteq> (b2, c2)"
  shows "\<not> prefix c1 c2"
proof
  assume "prefix c1 c2"
  then obtain r where r: "c2 = c1 @ r" by (auto simp: prefix_def)
  have l1: "is_leaf (branch root c1)" "byte (branch root c1) = b1"
    using table_codes [OF assms(1)] by auto
  have l2: "is_leaf (branch root c2)" "byte (branch root c2) = b2"
    using table_codes [OF assms(2)] by auto
  have "branch (branch root c1) r \<noteq> nullptr"
    using l2 by (simp add: r branch_append is_leaf_def)
  then have "r = []" using l1 branch_leaf by blast
  then show False using assms(3) l1 l2 r by simp
qed

theorem prefix_free_witness:
  "(0x41, ''10'') \<in> set (create_substitution_table
       (HuffmanNode 0 5 (HuffmanNode 0x43 2 nullptr nullptr)
          (HuffmanNode 0 3 (HuffmanNode 0x41 1 nullptr nullptr) (HuffmanNode 0x42 2 nullptr nullptr))) [] [])
   \<and> (0x43, ''0'') \<in> set (create_substitution_table
       (HuffmanNode 0 5 (HuffmanNode 0x43 2 nullptr nullptr)
          (HuffmanNode 0 3 (HuffmanNode 0x41 1 nullptr nullptr) (HuffmanNode 0x42 2 nullptr nullptr))) [] [])
   \<and> \<not> prefix ''0'' ''10''"
proof -
  let ?t = "HuffmanNode 0 5 (HuffmanNode 0x43 2 nullptr nullptr)
          (HuffmanNode 0 3 (HuffmanNode 0x41 1 nullptr nullptr) (HuffmanNode 0x42 2 nullptr nullptr))"
  have t: "create_substitution_table ?t [] [] = [(0x41, ''10''), (0x42, ''11''), (0x43, ''0'')]"
    by code_simp
  have a: "(0x41, ''10'') \<in> set (create_substitution_table ?t [] [])"
    and b: "(0x43, ''0'') \<in> set (create_substitution_table ?t [] [])"
    unfolding t by simp_all
  have "((0x43::Byte), ''0'') \<noteq> (0x41, ''10'')" by simp
  from prefix_free [OF b a this] a b show ?thesis by blast
qed

text \<open>
  C9, as amended. For every frequency table that is not empty, the generated table has an
  entry for each byte of the frequency table, and every entry maps its byte to the path
  from the root to the leaf of that byte, written with \<open>LEFT_CHAR\<close> for a left and
  \<open>RIGHT_CHAR\<close> for a right branch. The code is the empty string exactly when the
  frequency table has a single entry, where the root is the leaf.
\<close>

theorem code_table_paths:
  assumes "frequencies \<noteq> []"
  shows "\<exists>root. build_huffman_tree frequencies = Inr root
     \<and> fst ` set (create_substitution_table root [] []) = fst ` set frequencies
     \<and> (\<forall>(b, c) \<in> set (create_substitution_table root [] []).
          is_leaf (branch root c) \<and> byte (branch root c) = b
          \<and> set c \<subseteq> {LEFT_CHAR, RIGHT_CHAR}
          \<and> (c = [] \<longleftrightarrow> length frequencies = 1))"
  using assms by (rule code_table_of_built_tree)

theorem code_table_paths_witness:
  "[(0x41, 1), (0x42, 2), (0x43, 2)] \<noteq> ([] :: (Byte, uint32_t) std_map)
   \<and> (\<exists>root. build_huffman_tree [(0x41, 1), (0x42, 2), (0x43, 2)] = Inr root
     \<and> fst ` set (create_substitution_table root [] []) = fst ` set ([(0x41, 1), (0x42, 2), (0x43, 2)] :: (Byte, uint32_t) std_map)
     \<and> (\<forall>(b, c) \<in> set (create_substitution_table root [] []).
          is_leaf (branch root c) \<and> byte (branch root c) = b
          \<and> set c \<subseteq> {LEFT_CHAR, RIGHT_CHAR}
          \<and> (c = [] \<longleftrightarrow> length ([(0x41, 1), (0x42, 2), (0x43, 2)] :: (Byte, uint32_t) std_map) = 1)))"
proof -
  have h: "[(0x41, 1), (0x42, 2), (0x43, 2)] \<noteq> ([] :: (Byte, uint32_t) std_map)" by simp
  from h code_table_paths [OF h] show ?thesis by (rule conjI)
qed

text \<open>
  The claim C9 as stated fails: the only code of a table with a single entry is empty.
\<close>

theorem single_entry_code_is_empty:
  "build_huffman_tree [(0x41, 3)] = Inr (HuffmanNode 0x41 3 nullptr nullptr)
   \<and> create_substitution_table (HuffmanNode 0x41 3 nullptr nullptr) [] [] = [(0x41, [])]"
  by code_simp




end
